theory Spec2Isabelle
  imports Main "HOL-Library.Word"
begin

unbundle bit_operations_syntax

section \<open>Bytes, byte orders and errors\<close>

text \<open>
  The decoder of package \<open>nef\<close> works on an in-memory buffer (\<open>bytes.Reader\<close>): the
  buffer is a list of bytes and the reader's cursor a natural number. Every operation that
  moves the cursor returns the new cursor beside its result.
\<close>

type_synonym byte = "8 word"

datatype ByteOrder = LittleEndian | BigEndian

text \<open>
  The errors of the package: the three exported sentinels, the two errors of \<open>io\<close> that
  \<open>io.ReadFull\<close> and \<open>binary.Read\<close> return on a short read, the ad-hoc errors built with
  \<open>fmt.Errorf\<close> in \<open>readTags\<close> and \<open>readOrder\<close>, and a run-time panic (slice out of range,
  integer division by zero, method call on a nil byte order). Wrapping with \<open>%w\<close> is
  dropped: a wrapped sentinel is the sentinel, as \<open>errors.Is\<close> sees it.
\<close>

datatype error =
    ErrImage
  | ErrExist
  | ErrFormat
  | EOF
  | ErrUnexpectedEOF
  | ErrNotSorted
  | ErrInvalidCount
  | ErrByteOrder
  | ErrMagic
  | Panic

text \<open>The classes of the specification's error taxonomy.\<close>

definition DirectoryCorrupt :: "error \<Rightarrow> bool" where
  "DirectoryCorrupt e = (e = ErrNotSorted \<or> e = ErrInvalidCount)"

definition Truncated :: "error \<Rightarrow> bool" where
  "Truncated e = (e = EOF \<or> e = ErrUnexpectedEOF)"

subsection \<open>encoding/binary\<close>

text \<open>
  \<open>le_word\<close> assembles a word from its bytes, least significant first, as
  \<open>binary.LittleEndian.UintNN\<close> does with shifts and ors; \<open>le_bytes\<close> is
  \<open>PutUintNN\<close>. The big-endian order reads and writes the same bytes reversed.
\<close>

fun le_word :: "byte list \<Rightarrow> 'a::len word" where
  "le_word [] = 0"
| "le_word (b # bs) = ucast b OR push_bit 8 (le_word bs)"

fun le_bytes :: "nat \<Rightarrow> 'a::len word \<Rightarrow> byte list" where
  "le_bytes 0 w = []"
| "le_bytes (Suc n) w = ucast w # le_bytes n (drop_bit 8 w)"

definition Uint16 :: "ByteOrder \<Rightarrow> byte list \<Rightarrow> 16 word" where
  "Uint16 ord b = (case ord of LittleEndian \<Rightarrow> le_word (take 2 b)
                             | BigEndian \<Rightarrow> le_word (rev (take 2 b)))"

definition Uint32 :: "ByteOrder \<Rightarrow> byte list \<Rightarrow> 32 word" where
  "Uint32 ord b = (case ord of LittleEndian \<Rightarrow> le_word (take 4 b)
                             | BigEndian \<Rightarrow> le_word (rev (take 4 b)))"

definition Uint64 :: "ByteOrder \<Rightarrow> byte list \<Rightarrow> 64 word" where
  "Uint64 ord b = (case ord of LittleEndian \<Rightarrow> le_word (take 8 b)
                             | BigEndian \<Rightarrow> le_word (rev (take 8 b)))"

definition PutUint16 :: "ByteOrder \<Rightarrow> 16 word \<Rightarrow> byte list" where
  "PutUint16 ord v = (case ord of LittleEndian \<Rightarrow> le_bytes 2 v
                                | BigEndian \<Rightarrow> rev (le_bytes 2 v))"

definition PutUint32 :: "ByteOrder \<Rightarrow> 32 word \<Rightarrow> byte list" where
  "PutUint32 ord v = (case ord of LittleEndian \<Rightarrow> le_bytes 4 v
                                | BigEndian \<Rightarrow> rev (le_bytes 4 v))"

definition PutUint64 :: "ByteOrder \<Rightarrow> 64 word \<Rightarrow> byte list" where
  "PutUint64 ord v = (case ord of LittleEndian \<Rightarrow> le_bytes 8 v
                                | BigEndian \<Rightarrow> rev (le_bytes 8 v))"

subsection \<open>Reading from the buffer\<close>

text \<open>
  \<open>io.ReadFull\<close> on a \<open>bytes.Reader\<close> holding \<open>s\<close> with its cursor at \<open>i\<close>, for a
  destination of \<open>n\<close> bytes: nothing to read is no error; a cursor at or past the end is
  \<open>io.EOF\<close>; fewer than \<open>n\<close> bytes left is \<open>io.ErrUnexpectedEOF\<close>, and the bytes that
  were there are consumed. \<open>binary.Read\<close> of a fixed-size value is \<open>io.ReadFull\<close>
  followed by the decoding of the bytes.
\<close>

definition ReadFull :: "byte list \<Rightarrow> nat \<Rightarrow> nat \<Rightarrow> (error + byte list) \<times> nat" where
  "ReadFull s i n =
     (if n = 0 then (Inr [], i)
      else if length s \<le> i then (Inl EOF, i)
      else if length s - i < n then (Inl ErrUnexpectedEOF, length s)
      else (Inr (take n (drop i s)), i + n))"

text \<open>
  \<open>io.ReadFull(io.NewSectionReader(r, off, n), buf)\<close> with \<open>len(buf) = n\<close>: the same
  outcomes, read at \<open>off\<close> through \<open>ReadAt\<close>, which leaves the cursor of \<open>r\<close> alone.
\<close>

definition ReadFullAt :: "byte list \<Rightarrow> nat \<Rightarrow> nat \<Rightarrow> error + byte list" where
  "ReadFullAt s off n = fst (ReadFull s off n)"

text \<open>
  \<open>ioutil.ReadAll(io.NewSectionReader(r, off, n))\<close>: every byte of the buffer that lies in
  \<open>[off, off + n)\<close>. Reaching the end of the buffer early ends the read as \<open>io.EOF\<close>,
  which \<open>ReadAll\<close> does not report: it never fails here.
\<close>

definition ReadAllAt :: "byte list \<Rightarrow> nat \<Rightarrow> nat \<Rightarrow> byte list" where
  "ReadAllAt s off n = take n (drop off s)"

section \<open>Formats and tags\<close>

type_synonym Format = "16 word"

abbreviation (input) Byte :: Format where "Byte \<equiv> 0x1"
abbreviation (input) String :: Format where "String \<equiv> 0x2"
abbreviation (input) Short :: Format where "Short \<equiv> 0x3"
abbreviation (input) Long :: Format where "Long \<equiv> 0x4"
abbreviation (input) Rational :: Format where "Rational \<equiv> 0x5"
abbreviation (input) SByte :: Format where "SByte \<equiv> 0x6"
abbreviation (input) Undef :: Format where "Undef \<equiv> 0x7"
abbreviation (input) SShort :: Format where "SShort \<equiv> 0x8"
abbreviation (input) SLong :: Format where "SLong \<equiv> 0x9"
abbreviation (input) SRational :: Format where "SRational \<equiv> 0xa"
abbreviation (input) Float :: Format where "Float \<equiv> 0xb"
abbreviation (input) Double :: Format where "Double \<equiv> 0xc"

definition Format_Size :: "Format \<Rightarrow> nat" where
  "Format_Size f =
     (if f = Byte \<or> f = String \<or> f = SByte \<or> f = Undef then 1
      else if f = Short \<or> f = SShort then 2
      else if f = Long \<or> f = SLong \<or> f = Float then 4
      else if f = Rational \<or> f = SRational \<or> f = Double then 8
      else 0)"

text \<open>The directory families (the constants \<open>Tiff\<close>, \<open>Exif\<close>, \<open>Nef\<close>, \<open>Note\<close>, \<open>Gps\<close>).\<close>

abbreviation (input) Tiff :: int where "Tiff \<equiv> 0x0"
abbreviation (input) Exif :: int where "Exif \<equiv> 0x8769"
abbreviation (input) Nef :: int where "Nef \<equiv> 0x14a"
abbreviation (input) Note :: int where "Note \<equiv> 0x927c"
abbreviation (input) Gps :: int where "Gps \<equiv> 0x8825"

text \<open>The tag ids the package names.\<close>

abbreviation (input) Xmp :: "16 word" where "Xmp \<equiv> 0x2bc"
abbreviation (input) Comment :: "16 word" where "Comment \<equiv> 0x9286"
abbreviation (input) ImageWidth :: "16 word" where "ImageWidth \<equiv> 0x100"
abbreviation (input) ImageLength :: "16 word" where "ImageLength \<equiv> 0x101"
abbreviation (input) JpegFromRawStart :: "16 word" where "JpegFromRawStart \<equiv> 0x201"
abbreviation (input) JpegFromRawLength :: "16 word" where "JpegFromRawLength \<equiv> 0x202"
abbreviation (input) StripOffsets :: "16 word" where "StripOffsets \<equiv> 0x111"
abbreviation (input) RowsPerStrip :: "16 word" where "RowsPerStrip \<equiv> 0x116"
abbreviation (input) StripByteCounts :: "16 word" where "StripByteCounts \<equiv> 0x117"
abbreviation (input) Photometric :: "16 word" where "Photometric \<equiv> 0x106"

text \<open>
  The struct \<open>Tag\<close>. The byte order is an interface value in the source: the zero
  \<open>Tag\<close> has none (\<open>None\<close>), every tag built by \<open>readTags\<close> has one.
\<close>

record Tag =
  Id :: "16 word"
  Type :: Format
  Count :: "32 word"
  Offset :: "32 word"
  Raw :: "byte list"
  family :: int
  order :: "ByteOrder option"

definition zeroTag :: Tag where
  "zeroTag = \<lparr>Id = 0, Type = 0, Count = 0, Offset = 0, Raw = [], family = 0, order = None\<rparr>"

definition Tag_Size :: "Tag \<Rightarrow> nat" where
  "Tag_Size t = Format_Size (Type t) * unat (Count t)"

section \<open>Reading one directory\<close>

text \<open>
  The loop of \<open>readTags\<close>, with \<open>n\<close> the number of descriptors still to read, \<open>pos\<close> the
  cursor and \<open>tags\<close> the tags read so far. One round reads the 12-byte descriptor
  \<open>(Id, Type, Count, Offset)\<close>, rejects an id that does not exceed the last one and the
  count \<open>1<<32 - 1\<close>, adds \<open>delta\<close> to the value field, and fills \<open>Raw\<close>: from the buffer at
  \<open>Offset\<close> when the payload is larger than 4 bytes, from \<open>Offset\<close> itself otherwise.
\<close>

fun readEntries ::
  "byte list \<Rightarrow> ByteOrder \<Rightarrow> 32 word \<Rightarrow> int \<Rightarrow> nat \<Rightarrow> nat \<Rightarrow> Tag list \<Rightarrow> error + (Tag list \<times> nat)"
where
  "readEntries s ord delta fam 0 pos tags = Inr (tags, pos)"
| "readEntries s ord delta fam (Suc n) pos tags =
     (case ReadFull s pos 12 of
        (Inl e, _) \<Rightarrow> Inl e
      | (Inr g, pos') \<Rightarrow>
          let gId = Uint16 ord g;
              gType = Uint16 ord (drop 2 g);
              gCount = Uint32 ord (drop 4 g);
              gOffset = Uint32 ord (drop 8 g)
          in if tags \<noteq> [] \<and> gId \<le> Id (last tags) then Inl ErrNotSorted
             else if gCount = 0xFFFFFFFF then Inl ErrInvalidCount
             else
               let tag = \<lparr>Id = gId, Type = gType, Count = gCount, Offset = gOffset + delta,
                          Raw = [], family = fam, order = Some ord\<rparr>;
                   z = Tag_Size tag
               in if z > 4 then
                    (case ReadFullAt s (unat (Offset tag)) z of
                       Inl e \<Rightarrow> Inl e
                     | Inr raw \<Rightarrow> readEntries s ord delta fam n pos' (tags @ [tag\<lparr>Raw := raw\<rparr>]))
                  else
                    readEntries s ord delta fam n pos'
                      (tags @ [tag\<lparr>Raw := PutUint32 ord (Offset tag)\<rparr>]))"

definition readTags ::
  "byte list \<Rightarrow> ByteOrder \<Rightarrow> 32 word \<Rightarrow> 32 word \<Rightarrow> int \<Rightarrow> error + (Tag list \<times> nat)"
where
  "readTags s ord at delta fam =
     (case ReadFull s (unat at) 2 of
        (Inl e, _) \<Rightarrow> Inl e
      | (Inr c, pos) \<Rightarrow> readEntries s ord delta fam (unat (Uint16 ord c)) pos [])"

text \<open>\<open>readOrder\<close>: the 4-byte header, \<open>II\<close> or \<open>MM\<close> and the magic number in that order.\<close>

definition readOrder :: "byte list \<Rightarrow> nat \<Rightarrow> error + (ByteOrder \<times> nat)" where
  "readOrder s pos =
     (case ReadFull s pos 4 of
        (Inl e, _) \<Rightarrow> Inl e
      | (Inr intro, pos') \<Rightarrow>
          if take 2 intro = [0x49, 0x49] then
            (if drop 2 intro = [0x2a, 0x00] then Inr (LittleEndian, pos') else Inl ErrMagic)
          else if take 2 intro = [0x4d, 0x4d] then
            (if drop 2 intro = [0x00, 0x2a] then Inr (BigEndian, pos') else Inl ErrMagic)
          else Inl ErrByteOrder)"

subsection \<open>The directory as it lies in the buffer\<close>

text \<open>
  The layout that \<open>readTags\<close> walks, read off the buffer without the loop: the entry count
  at \<open>at\<close>, the \<open>k\<close>-th 12-byte descriptor and its four fields, its payload size, and the
  tag that one round of the loop builds from it. An entry is bad when \<open>readTags\<close> rejects
  it: its id does not exceed the id before it, or its count is \<open>0xFFFFFFFF\<close>.
\<close>

definition dirCount :: "byte list \<Rightarrow> ByteOrder \<Rightarrow> 32 word \<Rightarrow> nat" where
  "dirCount s ord at = unat (Uint16 ord (drop (unat at) s))"

definition entryPos :: "32 word \<Rightarrow> nat \<Rightarrow> nat" where
  "entryPos at k = unat at + 2 + 12 * k"

definition entryBytes :: "byte list \<Rightarrow> 32 word \<Rightarrow> nat \<Rightarrow> byte list" where
  "entryBytes s at k = take 12 (drop (entryPos at k) s)"

definition entryId :: "byte list \<Rightarrow> ByteOrder \<Rightarrow> 32 word \<Rightarrow> nat \<Rightarrow> 16 word" where
  "entryId s ord at k = Uint16 ord (entryBytes s at k)"

definition entryType :: "byte list \<Rightarrow> ByteOrder \<Rightarrow> 32 word \<Rightarrow> nat \<Rightarrow> Format" where
  "entryType s ord at k = Uint16 ord (drop 2 (entryBytes s at k))"

definition entryCount :: "byte list \<Rightarrow> ByteOrder \<Rightarrow> 32 word \<Rightarrow> nat \<Rightarrow> 32 word" where
  "entryCount s ord at k = Uint32 ord (drop 4 (entryBytes s at k))"

definition entryValue :: "byte list \<Rightarrow> ByteOrder \<Rightarrow> 32 word \<Rightarrow> nat \<Rightarrow> 32 word" where
  "entryValue s ord at k = Uint32 ord (drop 8 (entryBytes s at k))"

definition entrySize :: "byte list \<Rightarrow> ByteOrder \<Rightarrow> 32 word \<Rightarrow> nat \<Rightarrow> nat" where
  "entrySize s ord at k = Format_Size (entryType s ord at k) * unat (entryCount s ord at k)"

definition entryPresent :: "byte list \<Rightarrow> 32 word \<Rightarrow> nat \<Rightarrow> bool" where
  "entryPresent s at k = (entryPos at (Suc k) \<le> length s)"

definition entryBad :: "byte list \<Rightarrow> ByteOrder \<Rightarrow> 32 word \<Rightarrow> nat \<Rightarrow> bool" where
  "entryBad s ord at k =
     ((0 < k \<and> entryId s ord at k \<le> entryId s ord at (k - 1)) \<or> entryCount s ord at k = 0xFFFFFFFF)"

definition payloadPresent :: "byte list \<Rightarrow> ByteOrder \<Rightarrow> 32 word \<Rightarrow> 32 word \<Rightarrow> nat \<Rightarrow> bool" where
  "payloadPresent s ord at delta k =
     (entrySize s ord at k \<le> 4 \<or>
      unat (entryValue s ord at k + delta) + entrySize s ord at k \<le> length s)"

definition entryTag :: "byte list \<Rightarrow> ByteOrder \<Rightarrow> 32 word \<Rightarrow> 32 word \<Rightarrow> int \<Rightarrow> nat \<Rightarrow> Tag" where
  "entryTag s ord at delta fam k =
     \<lparr>Id = entryId s ord at k, Type = entryType s ord at k, Count = entryCount s ord at k,
      Offset = entryValue s ord at k + delta,
      Raw = (if entrySize s ord at k > 4
             then take (entrySize s ord at k) (drop (unat (entryValue s ord at k + delta)) s)
             else PutUint32 ord (entryValue s ord at k + delta)),
      family = fam, order = Some ord\<rparr>"

section \<open>The value codec\<close>

text \<open>
  Strings are byte strings. \<open>strconv.FormatUint(x, 10)\<close>, \<open>strconv.FormatInt(x, 10)\<close> and
  the verb \<open>%d\<close> of \<open>fmt\<close> print a number in decimal, with a minus sign when negative.
\<close>

definition string_of :: "byte list \<Rightarrow> string" where
  "string_of bs = map (\<lambda>b. char_of (unat b)) bs"

function FormatUint :: "nat \<Rightarrow> string" where
  "FormatUint n =
     (if n < 10 then [''0123456789'' ! n]
      else FormatUint (n div 10) @ [''0123456789'' ! (n mod 10)])"
  by pat_completeness auto
termination
  by (relation "measure id") auto

definition FormatInt :: "int \<Rightarrow> string" where
  "FormatInt i = (if i < 0 then CHR ''-'' # FormatUint (nat (- i)) else FormatUint (nat i))"

text \<open>
  What the codec takes from the standard library without a model of its own:
  \<open>bytes.TrimSpace\<close> (Unicode white space, on UTF-8), and \<open>strconv.FormatFloat\<close> with
  format \<open>'f'\<close> and precision \<open>-1\<close> applied to the float whose IEEE-754 bits are given
  (\<open>math.Float32frombits\<close> widened to 64 bits, \<open>math.Float64frombits\<close>).
\<close>

record extern =
  TrimSpace :: "byte list \<Rightarrow> byte list"
  FormatFloat32 :: "32 word \<Rightarrow> string"
  FormatFloat64 :: "64 word \<Rightarrow> string"

text \<open>\<open>bytes.TrimRight(b, "\x00")\<close>.\<close>

definition TrimRightNul :: "byte list \<Rightarrow> byte list" where
  "TrimRightNul b = rev (dropWhile (\<lambda>c. c = 0) (rev b))"

text \<open>
  The decoders that index \<open>Raw\<close> run \<open>for i := 0; i < len(str); i++\<close> and compute the
  \<open>i\<close>-th string from \<open>i\<close>; a panic in one round ends the loop.
\<close>

fun forEach :: "nat \<Rightarrow> nat \<Rightarrow> (nat \<Rightarrow> error + string) \<Rightarrow> error + string list" where
  "forEach 0 i el = Inr []"
| "forEach (Suc n) i el =
     (case el i of
        Inl e \<Rightarrow> Inl e
      | Inr x \<Rightarrow> (case forEach n (Suc i) el of Inl e \<Rightarrow> Inl e | Inr xs \<Rightarrow> Inr (x # xs)))"

text \<open>
  The decoders that read through a \<open>bytes.Reader\<close> over \<open>Raw\<close> run the same loop and
  carry the reader's cursor from one round to the next.
\<close>

fun readEach :: "nat \<Rightarrow> nat \<Rightarrow> (nat \<Rightarrow> (error + string) \<times> nat) \<Rightarrow> error + string list" where
  "readEach 0 p el = Inr []"
| "readEach (Suc n) p el =
     (case el p of
        (Inl e, _) \<Rightarrow> Inl e
      | (Inr x, p') \<Rightarrow> (case readEach n p' el of Inl e \<Rightarrow> Inl e | Inr xs \<Rightarrow> Inr (x # xs)))"

text \<open>
  \<open>binary.Read(rs, tag.order, &v)\<close> with its error discarded, for a value of \<open>w\<close> bytes
  decoded by \<open>dec\<close>: a short read leaves \<open>v\<close> at zero (and consumes what was left); after a
  full read the byte order is called, which panics when it is nil.
\<close>

definition binaryRead ::
  "nat \<Rightarrow> (ByteOrder \<Rightarrow> byte list \<Rightarrow> 'a::len word) \<Rightarrow> Tag \<Rightarrow> nat \<Rightarrow> (error + 'a word) \<times> nat"
where
  "binaryRead w dec t p =
     (case ReadFull (Raw t) p w of
        (Inl _, p') \<Rightarrow> (Inr 0, p')
      | (Inr bs, p') \<Rightarrow>
          (case order t of
             None \<Rightarrow> (Inl Panic, p')
           | Some ord \<Rightarrow> (Inr (dec ord bs), p')))"

definition decodeShort :: "Tag \<Rightarrow> error + string list" where
  "decodeShort t =
     forEach (unat (Count t)) 0
       (\<lambda>i. case order t of
               None \<Rightarrow> Inl Panic
             | Some ord \<Rightarrow>
                 if length (Raw t) < i * 2 + 2 then Inl Panic
                 else Inr (FormatUint (unat (Uint16 ord (drop (i * 2) (Raw t))))))"

definition decodeSignedShort :: "Tag \<Rightarrow> error + string list" where
  "decodeSignedShort t =
     readEach (unat (Count t)) 0
       (\<lambda>p. case binaryRead 2 Uint16 t p of
               (Inl e, p') \<Rightarrow> (Inl e, p')
             | (Inr s, p') \<Rightarrow> (Inr (FormatInt (sint s)), p'))"

definition decodeLong :: "Tag \<Rightarrow> error + string list" where
  "decodeLong t =
     forEach (unat (Count t)) 0
       (\<lambda>i. case order t of
               None \<Rightarrow> Inl Panic
             | Some ord \<Rightarrow>
                 if length (Raw t) < i * 4 + 4 then Inl Panic
                 else Inr (FormatUint (unat (Uint32 ord (drop (i * 4) (Raw t))))))"

definition decodeSignedLong :: "Tag \<Rightarrow> error + string list" where
  "decodeSignedLong t =
     readEach (unat (Count t)) 0
       (\<lambda>p. case binaryRead 4 Uint32 t p of
               (Inl e, p') \<Rightarrow> (Inl e, p')
             | (Inr s, p') \<Rightarrow> (Inr (FormatInt (sint s)), p'))"

definition decodeByte :: "Tag \<Rightarrow> error + string list" where
  "decodeByte t =
     forEach (unat (Count t)) 0
       (\<lambda>i. if length (Raw t) \<le> i then Inl Panic
             else Inr (FormatUint (unat (Raw t ! i))))"

definition decodeRational :: "Tag \<Rightarrow> error + string list" where
  "decodeRational t =
     readEach (unat (Count t)) 0
       (\<lambda>p. case binaryRead 4 Uint32 t p of
               (Inl e, p1) \<Rightarrow> (Inl e, p1)
             | (Inr n, p1) \<Rightarrow>
                 (case binaryRead 4 Uint32 t p1 of
                    (Inl e, p2) \<Rightarrow> (Inl e, p2)
                  | (Inr d, p2) \<Rightarrow>
                      (Inr (FormatUint (unat n) @ ''/'' @ FormatUint (unat d)), p2)))"

definition decodeSignedRational :: "Tag \<Rightarrow> error + string list" where
  "decodeSignedRational t =
     readEach (unat (Count t)) 0
       (\<lambda>p. case binaryRead 4 Uint32 t p of
               (Inl e, p1) \<Rightarrow> (Inl e, p1)
             | (Inr n, p1) \<Rightarrow>
                 (case binaryRead 4 Uint32 t p1 of
                    (Inl e, p2) \<Rightarrow> (Inl e, p2)
                  | (Inr d, p2) \<Rightarrow>
                      (Inr (FormatInt (sint n) @ ''/'' @ FormatInt (sint d)), p2)))"

definition decodeFloat :: "extern \<Rightarrow> Tag \<Rightarrow> error + string list" where
  "decodeFloat E t =
     readEach (unat (Count t)) 0
       (\<lambda>p. case binaryRead 4 Uint32 t p of
               (Inl e, p') \<Rightarrow> (Inl e, p')
             | (Inr f, p') \<Rightarrow> (Inr (FormatFloat32 E f), p'))"

definition decodeDouble :: "extern \<Rightarrow> Tag \<Rightarrow> error + string list" where
  "decodeDouble E t =
     readEach (unat (Count t)) 0
       (\<lambda>p. case binaryRead 8 Uint64 t p of
               (Inl e, p') \<Rightarrow> (Inl e, p')
             | (Inr f, p') \<Rightarrow> (Inr (FormatFloat64 E f), p'))"

text \<open>
  \<open>Tag.Values\<close>. The ids \<open>Xmp\<close> and \<open>Comment\<close> bypass the dispatch on the type. The
  cases \<open>SByte\<close> and \<open>Undef\<close> have an empty body: the result stays the nil slice and no
  error is returned. Only a type outside the twelve reaches \<open>default\<close>.
\<close>

definition Values :: "extern \<Rightarrow> Tag \<Rightarrow> error + string list" where
  "Values E t =
     (if Id t = Xmp \<or> Id t = Comment then Inr [string_of (TrimSpace E (Raw t))]
      else if Type t = String then Inr [string_of (TrimSpace E (TrimRightNul (Raw t)))]
      else if Type t = Long then decodeLong t
      else if Type t = SLong then decodeSignedLong t
      else if Type t = Short then decodeShort t
      else if Type t = SShort then decodeSignedShort t
      else if Type t = Byte then decodeByte t
      else if Type t = SByte then Inr []
      else if Type t = Undef then Inr []
      else if Type t = Rational then decodeRational t
      else if Type t = SRational then decodeSignedRational t
      else if Type t = Float then decodeFloat E t
      else if Type t = Double then decodeDouble E t
      else Inl ErrFormat)"

section \<open>Files\<close>

text \<open>
  \<open>sort.Search(n, f)\<close>: the binary search of the standard library, the smallest index in
  \<open>[0, n)\<close> at which \<open>f\<close> holds when \<open>f\<close> is monotone, \<open>n\<close> when there is none.
\<close>

function SearchLoop :: "nat \<Rightarrow> nat \<Rightarrow> (nat \<Rightarrow> bool) \<Rightarrow> nat" where
  "SearchLoop i j f =
     (if i < j then
        (let h = (i + j) div 2
         in if \<not> f h then SearchLoop (h + 1) j f else SearchLoop i h f)
      else i)"
  by pat_completeness auto
termination
  by (relation "measure (\<lambda>(i, j, f). j - i)") auto

definition Search :: "nat \<Rightarrow> (nat \<Rightarrow> bool) \<Rightarrow> nat" where
  "Search n f = SearchLoop 0 n f"

text \<open>
  \<open>notesTags\<close>: the MakerNote directory. The tag \<open>0x927c\<close> of the EXIF tags points at a
  block that starts with a 10-byte preamble; behind the signature \<open>Nikon\0\<close> the block has
  its own byte-order header and the offset of its directory, and every offset in it counts
  from the end of the preamble: \<open>readTags\<close> is called with that rebase.
\<close>

definition notesTags :: "byte list \<Rightarrow> Tag list \<Rightarrow> error + Tag list" where
  "notesTags s tags =
     (let x = Search (length tags) (\<lambda>i. Id (tags ! i) \<ge> 0x927c)
      in if x \<ge> length tags \<or> Id (tags ! x) \<noteq> 0x927c then Inr []
         else
           (case ReadFull s (unat (Offset (tags ! x))) 10 of
              (Inl e, _) \<Rightarrow> Inl e
            | (Inr preamble, pos) \<Rightarrow>
                if take 6 preamble \<noteq> [0x4e, 0x69, 0x6b, 0x6f, 0x6e, 0x00] then Inr []
                else
                  (case readOrder s pos of
                     Inl e \<Rightarrow> Inl e
                   | Inr (ord, pos') \<Rightarrow>
                       (case ReadFull s pos' 4 of
                          (Inl e, _) \<Rightarrow> Inl e
                        | (Inr b, _) \<Rightarrow>
                            let offset = Uint32 ord b + (Offset (tags ! x) + 10)
                            in (case readTags s ord offset (Offset (tags ! x) + 10) Note of
                                  Inl e \<Rightarrow> Inl e
                                | Inr (notes, _) \<Rightarrow> Inr notes)))))"

text \<open>
  The struct \<open>File\<close>: the backing buffer (the \<open>bytes.Reader\<close> is only read through
  \<open>ReadAt\<close> once the file is built), the byte order, the four tag vectors, the index path
  and the children.
\<close>

datatype File = File
  (reader: "byte list")
  (file_order: ByteOrder)
  (tiff: "Tag list")
  (exif: "Tag list")
  (notes': "Tag list")
  (gps: "Tag list")
  (Index: "int list")
  (Files: "File list")

definition get :: "File \<Rightarrow> 16 word \<Rightarrow> error + Tag" where
  "get f ident =
     (let x = Search (length (tiff f)) (\<lambda>i. Id (tiff f ! i) \<ge> ident)
      in if x \<ge> length (tiff f) \<or> Id (tiff f ! x) \<noteq> ident then Inl ErrExist
         else Inr (tiff f ! x))"

text \<open>Where the source discards the error of \<open>get\<close>, it goes on with the zero \<open>Tag\<close>.\<close>

definition orZero :: "error + Tag \<Rightarrow> Tag" where
  "orZero r = (case r of Inl _ \<Rightarrow> zeroTag | Inr t \<Rightarrow> t)"

definition Has :: "File \<Rightarrow> 16 word \<Rightarrow> bool" where
  "Has f ident =
     (let x = Search (length (tiff f)) (\<lambda>i. Id (tiff f ! i) \<ge> ident)
      in x < length (tiff f) \<and> Id (tiff f ! x) = ident)"

definition IsJpeg :: "File \<Rightarrow> bool" where
  "IsJpeg f = (Has f JpegFromRawStart \<and> Has f JpegFromRawLength)"

definition IsRaw :: "File \<Rightarrow> bool" where
  "IsRaw f = (Has f StripOffsets \<and> Has f RowsPerStrip \<and> Has f StripByteCounts)"

definition GetTag :: "File \<Rightarrow> 16 word \<Rightarrow> int \<Rightarrow> error + Tag" where
  "GetTag f ident origin =
     (if origin = Tiff \<or> origin = Nef \<or> origin = Exif \<or> origin = Note then
        (let tags = (if origin = Tiff \<or> origin = Nef then tiff f
                     else if origin = Exif then exif f
                     else notes' f);
             x = Search (length tags) (\<lambda>i. Id (tags ! i) \<ge> ident)
         in if x \<ge> length tags \<or> Id (tags ! x) \<noteq> ident then Inl ErrExist
            else Inr (tags ! x))
      else Inl ErrExist)"

text \<open>\<open>TagsFor\<close> takes the family as a \<open>uint16\<close>; an unknown family gives no tags.\<close>

definition TagsFor :: "File \<Rightarrow> 16 word \<Rightarrow> Tag list" where
  "TagsFor f fam =
     (if fam = 0x8769 then exif f
      else if fam = 0x927c then notes' f
      else if fam = 0x0 \<or> fam = 0x14a then tiff f
      else if fam = 0x8825 then gps f
      else [])"

text \<open>
  \<open>Tag.Uint\<close>: the first element of a Byte, Short or Long tag, 0 for any other type.
  Indexing an empty \<open>Raw\<close>, decoding fewer bytes than the width, and calling the nil byte
  order panic.
\<close>

definition Uint :: "Tag \<Rightarrow> error + 32 word" where
  "Uint t =
     (if Type t = Byte then
        (case Raw t of [] \<Rightarrow> Inl Panic | b # _ \<Rightarrow> Inr (ucast b))
      else if Type t = Short then
        (case order t of
           None \<Rightarrow> Inl Panic
         | Some ord \<Rightarrow> if length (Raw t) < 2 then Inl Panic else Inr (ucast (Uint16 ord (Raw t))))
      else if Type t = Long then
        (case order t of
           None \<Rightarrow> Inl Panic
         | Some ord \<Rightarrow> if length (Raw t) < 4 then Inl Panic else Inr (Uint32 ord (Raw t)))
      else Inr 0)"

abbreviation (input) ImgBlack :: "32 word" where "ImgBlack \<equiv> 0"
abbreviation (input) ImgWhite :: "32 word" where "ImgWhite \<equiv> 1"
abbreviation (input) ImgRGB :: "32 word" where "ImgRGB \<equiv> 2"
abbreviation (input) ImgPalette :: "32 word" where "ImgPalette \<equiv> 3"
abbreviation (input) ImgMask :: "32 word" where "ImgMask \<equiv> 4"
abbreviation (input) ImgCMYK :: "32 word" where "ImgCMYK \<equiv> 5"
abbreviation (input) ImgYCbCr :: "32 word" where "ImgYCbCr \<equiv> 6"

definition IsSupported :: "File \<Rightarrow> error + bool" where
  "IsSupported f =
     (case get f Photometric of
        Inl err \<Rightarrow> (if err = ErrExist then Inr True else Inr False)
      | Inr typ \<Rightarrow>
          (case Uint typ of
             Inl e \<Rightarrow> Inl e
           | Inr v \<Rightarrow> Inr (v = ImgBlack \<or> v = ImgWhite \<or> v = ImgRGB \<or> v = ImgPalette
                           \<or> v = ImgMask \<or> v = ImgCMYK \<or> v = ImgYCbCr)))"

definition ImageType :: "File \<Rightarrow> error + string" where
  "ImageType f =
     (let r = get f Photometric
      in if r = Inl ErrExist then Inr ''jpeg''
         else
           (case Uint (orZero r) of
              Inl e \<Rightarrow> Inl e
            | Inr typ \<Rightarrow>
                Inr (if typ = ImgBlack \<or> typ = ImgWhite then ''raw/gray''
                     else if typ = ImgRGB then ''raw/rgb''
                     else if typ = ImgPalette then ''raw/palette''
                     else if typ = ImgMask then ''raw/mask''
                     else if typ = ImgCMYK then ''raw/cmyk''
                     else if typ = ImgYCbCr then ''raw/ycbcr''
                     else ''unsupported'')))"

subsection \<open>The image bytes\<close>

definition processJpeg :: "File \<Rightarrow> error + byte list" where
  "processJpeg f =
     (let start = orZero (get f JpegFromRawStart);
          length' = orZero (get f JpegFromRawLength)
      in ReadFullAt (reader f) (unat (Offset start)) (unat (Offset length')))"

text \<open>
  The loop of \<open>processRaw\<close>: \<open>n\<close> strips still to read, \<open>p\<close> and \<open>c\<close> the cursors of the
  readers over the raw bytes of StripOffsets and StripByteCounts. \<open>binary.Read\<close> reads the
  4 bytes first and only then calls the byte order.
\<close>

fun readStrips ::
  "byte list \<Rightarrow> Tag \<Rightarrow> Tag \<Rightarrow> nat \<Rightarrow> nat \<Rightarrow> nat \<Rightarrow> byte list \<Rightarrow> error + byte list"
where
  "readStrips s offset count 0 p c img = Inr img"
| "readStrips s offset count (Suc n) p c img =
     (case ReadFull (Raw offset) p 4 of
        (Inl e, _) \<Rightarrow> Inl e
      | (Inr bp, p') \<Rightarrow>
          (case order offset of
             None \<Rightarrow> Inl Panic
           | Some po \<Rightarrow>
               (case ReadFull (Raw count) c 4 of
                  (Inl e, _) \<Rightarrow> Inl e
                | (Inr bc, c') \<Rightarrow>
                    (case order count of
                       None \<Rightarrow> Inl Panic
                     | Some co \<Rightarrow>
                         let pos = Uint32 po bp;
                             num = Uint32 co bc;
                             tmp = ReadAllAt s (unat pos) (unat num)
                         in readStrips s offset count n p' c' (img @ tmp)))))"

text \<open>The number of strips: the quotient, and one more when the division leaves a rest.\<close>

definition blockCount :: "32 word \<Rightarrow> 32 word \<Rightarrow> 32 word" where
  "blockCount len strip =
     (let block = len div strip
      in if len mod strip \<noteq> 0 then block + 1 else block)"

definition processRaw :: "File \<Rightarrow> error + byte list" where
  "processRaw f =
     (let strip = orZero (get f RowsPerStrip);
          offset = orZero (get f StripOffsets);
          count = orZero (get f StripByteCounts);
          length' = orZero (get f ImageLength)
      in if Offset strip = 0 then Inl Panic
         else readStrips (reader f) offset count
                (unat (blockCount (Offset length') (Offset strip))) 0 0 [])"

text \<open>
  The \<open>i\<close>-th element of a strip array (StripOffsets, StripByteCounts): the 32-bit number
  at byte \<open>4 * i\<close> of the tag's raw bytes, in the tag's byte order.
\<close>

definition stripAt :: "Tag \<Rightarrow> nat \<Rightarrow> nat" where
  "stripAt t i = (case order t of None \<Rightarrow> 0 | Some ord \<Rightarrow> unat (Uint32 ord (drop (4 * i) (Raw t))))"

definition Bytes :: "File \<Rightarrow> error + byte list" where
  "Bytes f =
     (if IsJpeg f then processJpeg f
      else if IsRaw f then processRaw f
      else Inl ErrImage)"

subsection \<open>The decoded image\<close>

text \<open>
  An image is its bounds and its pixels, row by row. The JPEG decoder of the standard
  library (\<open>image.Decode\<close>) is a parameter of the model.
\<close>

datatype 'j Image =
    Gray nat nat "byte list"
  | RGBA nat nat "(byte \<times> byte \<times> byte \<times> byte) list"
  | CMYK nat nat
  | Decoded 'j

text \<open>\<open>ReadByte\<close> with its error discarded: the byte 0 once the buffer is exhausted.\<close>

definition byteAt :: "byte list \<Rightarrow> nat \<Rightarrow> byte" where
  "byteAt buf k = (if k < length buf then buf ! k else 0)"

definition grayImage :: "nat \<Rightarrow> nat \<Rightarrow> byte list \<Rightarrow> bool \<Rightarrow> 'j Image" where
  "grayImage w h buf inverted =
     Gray w h (map (\<lambda>k. if inverted then 255 - byteAt buf k else byteAt buf k) [0..<w * h])"

definition rgbImage :: "nat \<Rightarrow> nat \<Rightarrow> byte list \<Rightarrow> 'j Image" where
  "rgbImage w h buf =
     RGBA w h (map (\<lambda>k. (byteAt buf (3 * k), byteAt buf (3 * k + 1), byteAt buf (3 * k + 2), 255))
                 [0..<w * h])"

definition decodeRaw :: "File \<Rightarrow> error + 'j Image" where
  "decodeRaw f =
     (let imgtype = orZero (get f Photometric);
          width = orZero (get f ImageWidth);
          height = orZero (get f ImageLength);
          w = unat (Offset width);
          h = unat (Offset height)
      in case Bytes f of
           Inl e \<Rightarrow> Inl e
         | Inr buf \<Rightarrow>
             (case Uint imgtype of
                Inl e \<Rightarrow> Inl e
              | Inr typ \<Rightarrow>
                  if typ = ImgBlack \<or> typ = ImgWhite then Inr (grayImage w h buf (typ = ImgWhite))
                  else if typ = ImgRGB then Inr (rgbImage w h buf)
                  else if typ = ImgCMYK then Inr (CMYK w h)
                  else Inl ErrFormat))"

definition decodeJpeg :: "(byte list \<Rightarrow> error + 'j) \<Rightarrow> File \<Rightarrow> error + 'j Image" where
  "decodeJpeg dec f =
     (case Bytes f of
        Inl e \<Rightarrow> Inl e
      | Inr raw \<Rightarrow> (case dec raw of Inl e \<Rightarrow> Inl e | Inr img \<Rightarrow> Inr (Decoded img)))"

definition Image :: "(byte list \<Rightarrow> error + 'j) \<Rightarrow> File \<Rightarrow> error + 'j Image" where
  "Image dec f =
     (if IsJpeg f then decodeJpeg dec f
      else if IsRaw f then decodeRaw f
      else Inl ErrImage)"

section \<open>Writing a directory\<close>

text \<open>
  The package only reads. To compare what is decoded from a little-endian and from a
  big-endian file of the same content, the content is written out here in the format that
  the specification fixes byte by byte: the header (\<open>II\<close> or \<open>MM\<close> and the magic number
  \<open>0x002a\<close>), the offset 8 of the first directory, the entry count, one 12-byte descriptor
  per tag, the offset 0 that ends the chain of directories, and the payloads that do not
  fit the 4-byte value field, in the order of their tags.

  The content of a tag is its id, its format and its elements: bytes, 16-bit, 32-bit or
  64-bit numbers, or pairs of 32-bit numbers. Only the elements wider than a byte depend
  on the byte order when they are written.
\<close>

datatype payload =
    Bytes8 "byte list"
  | Words16 "16 word list"
  | Words32 "32 word list"
  | Pairs32 "(32 word \<times> 32 word) list"
  | Words64 "64 word list"

record content =
  cid :: "16 word"
  ctype :: Format
  cdata :: payload

fun elemCount :: "payload \<Rightarrow> nat" where
  "elemCount (Bytes8 bs) = length bs"
| "elemCount (Words16 ws) = length ws"
| "elemCount (Words32 ws) = length ws"
| "elemCount (Pairs32 ps) = length ps"
| "elemCount (Words64 ws) = length ws"

fun encodePayload :: "ByteOrder \<Rightarrow> payload \<Rightarrow> byte list" where
  "encodePayload ord (Bytes8 bs) = bs"
| "encodePayload ord (Words16 ws) = concat (map (PutUint16 ord) ws)"
| "encodePayload ord (Words32 ws) = concat (map (PutUint32 ord) ws)"
| "encodePayload ord (Pairs32 ps) = concat (map (\<lambda>(n, d). PutUint32 ord n @ PutUint32 ord d) ps)"
| "encodePayload ord (Words64 ws) = concat (map (PutUint64 ord) ws)"

text \<open>
  A content tag is well typed when its elements have the width of its format. The tags
  \<open>Xmp\<close> and \<open>Comment\<close>, which \<open>Values\<close> prints from their raw bytes, have elements of
  one byte.
\<close>

definition wellTyped :: "content \<Rightarrow> bool" where
  "wellTyped ct =
     (case cdata ct of
        Bytes8 _ \<Rightarrow> ctype ct = Byte \<or> ctype ct = String \<or> ctype ct = SByte \<or> ctype ct = Undef
      | Words16 _ \<Rightarrow> (ctype ct = Short \<or> ctype ct = SShort) \<and> cid ct \<noteq> Xmp \<and> cid ct \<noteq> Comment
      | Words32 _ \<Rightarrow> (ctype ct = Long \<or> ctype ct = SLong \<or> ctype ct = Float)
                      \<and> cid ct \<noteq> Xmp \<and> cid ct \<noteq> Comment
      | Pairs32 _ \<Rightarrow> (ctype ct = Rational \<or> ctype ct = SRational)
                      \<and> cid ct \<noteq> Xmp \<and> cid ct \<noteq> Comment
      | Words64 _ \<Rightarrow> ctype ct = Double \<and> cid ct \<noteq> Xmp \<and> cid ct \<noteq> Comment)"

text \<open>
  The value field of a descriptor: the payload itself, left-justified and filled with
  zeros, when it has at most 4 bytes; the offset of the payload otherwise.
\<close>

definition padded :: "byte list \<Rightarrow> byte list" where
  "padded b = b @ replicate (4 - length b) 0"

definition valueField :: "ByteOrder \<Rightarrow> payload \<Rightarrow> nat \<Rightarrow> byte list" where
  "valueField ord p off =
     (if length (encodePayload ord p) > 4 then PutUint32 ord (of_nat off)
      else padded (encodePayload ord p))"

definition encodeEntry :: "ByteOrder \<Rightarrow> content \<Rightarrow> nat \<Rightarrow> byte list" where
  "encodeEntry ord ct off =
     PutUint16 ord (cid ct) @ PutUint16 ord (ctype ct) @
     PutUint32 ord (of_nat (elemCount (cdata ct))) @ valueField ord (cdata ct) off"

definition external :: "ByteOrder \<Rightarrow> content \<Rightarrow> byte list" where
  "external ord ct =
     (if length (encodePayload ord (cdata ct)) > 4 then encodePayload ord (cdata ct) else [])"

fun encodeEntries :: "ByteOrder \<Rightarrow> content list \<Rightarrow> nat \<Rightarrow> byte list" where
  "encodeEntries ord [] off = []"
| "encodeEntries ord (ct # cts) off =
     encodeEntry ord ct off @ encodeEntries ord cts (off + length (external ord ct))"

definition encodeHeader :: "ByteOrder \<Rightarrow> byte list" where
  "encodeHeader ord = (case ord of LittleEndian \<Rightarrow> [0x49, 0x49, 0x2a, 0x00]
                                 | BigEndian \<Rightarrow> [0x4d, 0x4d, 0x00, 0x2a])"

definition encodeFile :: "ByteOrder \<Rightarrow> content list \<Rightarrow> byte list" where
  "encodeFile ord c =
     encodeHeader ord @ PutUint32 ord 8 @
     PutUint16 ord (of_nat (length c)) @
     encodeEntries ord c (8 + 2 + 12 * length c + 4) @
     PutUint32 ord 0 @
     concat (map (external ord) c)"

text \<open>
  A valid content: well-typed tags with strictly increasing ids, whose number fits the
  16-bit entry count, whose element counts fit the 32-bit count below the rejected
  \<open>0xFFFFFFFF\<close>, in a file whose offsets fit 32 bits.
\<close>

definition validContent :: "content list \<Rightarrow> bool" where
  "validContent c =
     (list_all wellTyped c \<and> sorted_wrt (<) (map cid c) \<and> length c < 2 ^ 16 \<and>
      list_all (\<lambda>ct. elemCount (cdata ct) < 2 ^ 32 - 1) c \<and>
      length (encodeFile LittleEndian c) < 2 ^ 32)"

text \<open>
  The logical value of a decoded tag: its id, its format, its count and what \<open>Values\<close>
  prints. \<open>decoded\<close> runs the first steps of \<open>Decode\<close> on the file that encodes a
  content: \<open>readOrder\<close>, the offset of the first directory, and the \<open>readTags\<close> of
  \<open>readDirectory\<close> (rebase 0, family \<open>Tiff\<close>); its result is the logical value of each
  tag. \<open>contentTag\<close> is the tag that a content tag is decoded to.
\<close>

definition logical :: "extern \<Rightarrow> Tag \<Rightarrow> 16 word \<times> Format \<times> 32 word \<times> (error + string list)" where
  "logical E t = (Id t, Type t, Count t, Values E t)"

definition contentTag :: "ByteOrder \<Rightarrow> int \<Rightarrow> content \<Rightarrow> 32 word \<Rightarrow> Tag" where
  "contentTag ord fam ct off =
     \<lparr>Id = cid ct, Type = ctype ct, Count = of_nat (elemCount (cdata ct)), Offset = off,
      Raw = (if length (encodePayload ord (cdata ct)) > 4 then encodePayload ord (cdata ct)
             else padded (encodePayload ord (cdata ct))),
      family = fam, order = Some ord\<rparr>"

definition decoded :: "extern \<Rightarrow> ByteOrder \<Rightarrow> content list
    \<Rightarrow> error + (16 word \<times> Format \<times> 32 word \<times> (error + string list)) list" where
  "decoded E ord c =
     (case readOrder (encodeFile ord c) 0 of
        Inl e \<Rightarrow> Inl e
      | Inr (ord', pos) \<Rightarrow>
          (case ReadFull (encodeFile ord c) pos 4 of
             (Inl e, _) \<Rightarrow> Inl e
           | (Inr b, _) \<Rightarrow>
               (case readTags (encodeFile ord c) ord' (Uint32 ord' b) 0 Tiff of
                  Inl e \<Rightarrow> Inl e
                | Inr (tags, _) \<Rightarrow> Inr (map (logical E) tags))))"

section \<open>Example inputs\<close>

text \<open>
  Stand-ins for the library functions, for examples in which their result does not matter,
  and the tag that \<open>readTags\<close> builds for an inline Long of a little-endian directory.
\<close>

definition extern_stub :: extern where
  "extern_stub = \<lparr>TrimSpace = (\<lambda>b. b), FormatFloat32 = (\<lambda>_. []), FormatFloat64 = (\<lambda>_. [])\<rparr>"

definition jpeg_stub :: "byte list \<Rightarrow> error + nat" where
  "jpeg_stub raw = Inr (length raw)"

definition longTag :: "16 word \<Rightarrow> 32 word \<Rightarrow> Tag" where
  "longTag ident v = \<lparr>Id = ident, Type = Long, Count = 1, Offset = v,
     Raw = PutUint32 LittleEndian v, family = Tiff, order = Some LittleEndian\<rparr>"

definition empty_file :: File where
  "empty_file = File [] LittleEndian [] [] [] [] [0] []"

definition both_file :: File where
  "both_file = File [0xff, 0xd8, 0xff, 0xd9, 1, 2, 3, 4] LittleEndian
     [longTag ImageLength 1, longTag StripOffsets 4, longTag RowsPerStrip 1,
      longTag StripByteCounts 4, longTag JpegFromRawStart 0, longTag JpegFromRawLength 4]
     [] [] [] [0] []"

definition undef_tag :: Tag where
  "undef_tag = \<lparr>Id = 0xa302, Type = Undef, Count = 4, Offset = 0x02010100,
     Raw = [0, 1, 1, 2], family = Exif, order = Some LittleEndian\<rparr>"

definition unknown_tag :: Tag where
  "unknown_tag = \<lparr>Id = 0xa302, Type = 0xd, Count = 1, Offset = 0,
     Raw = [0, 0, 0, 0], family = Exif, order = Some LittleEndian\<rparr>"

definition gps_file :: File where
  "gps_file = File [] LittleEndian [] [] []
     [\<lparr>Id = 0, Type = Byte, Count = 4, Offset = 0x00000302,
       Raw = [2, 3, 0, 0], family = Gps, order = Some LittleEndian\<rparr>] [0] []"

definition rational_pairs :: Tag where
  "rational_pairs = \<lparr>Id = 0x829a, Type = Rational, Count = 2, Offset = 26,
     Raw = [0, 0, 0, 1, 0, 0, 0, 3, 0, 0, 0, 2, 0, 0, 0, 4], family = Exif,
     order = Some BigEndian\<rparr>"

text \<open>
  A little-endian file of 66 bytes: one directory of four Long tags (ImageLength 1,
  StripOffsets 62, RowsPerStrip 1, StripByteCounts 10) and 4 bytes of strip data at offset
  62, where the directory announces 10. \<open>truncated_file\<close> is the \<open>File\<close> of that directory.
\<close>

definition truncated_nef :: "byte list" where
  "truncated_nef =
     [0x49, 0x49, 0x2a, 0x00,  0x08, 0x00, 0x00, 0x00,
      0x04, 0x00,
      0x01, 0x01,  0x04, 0x00,  0x01, 0x00, 0x00, 0x00,  0x01, 0x00, 0x00, 0x00,
      0x11, 0x01,  0x04, 0x00,  0x01, 0x00, 0x00, 0x00,  0x3e, 0x00, 0x00, 0x00,
      0x16, 0x01,  0x04, 0x00,  0x01, 0x00, 0x00, 0x00,  0x01, 0x00, 0x00, 0x00,
      0x17, 0x01,  0x04, 0x00,  0x01, 0x00, 0x00, 0x00,  0x0a, 0x00, 0x00, 0x00,
      0x00, 0x00, 0x00, 0x00,
      0xde, 0xad, 0xbe, 0xef]"

definition truncated_file :: File where
  "truncated_file =
     File truncated_nef LittleEndian
       [longTag ImageLength 1, longTag StripOffsets 62, longTag RowsPerStrip 1,
        longTag StripByteCounts 10] [] [] [] [0] []"



text \<open>
  A MakerNote block at offset 8 of a little-endian file: preamble, byte-order header,
  directory offset 8, and a directory of one tag, id 2, Short, count 1, inline value 100.
\<close>

definition nikon_nef :: "byte list" where
  "nikon_nef =
     [0x49, 0x49, 0x2a, 0x00,  0x08, 0x00, 0x00, 0x00,
      0x4e, 0x69, 0x6b, 0x6f, 0x6e, 0x00,  0x02, 0x10,  0x00, 0x00,
      0x49, 0x49, 0x2a, 0x00,  0x08, 0x00, 0x00, 0x00,
      0x01, 0x00,
      0x02, 0x00,  0x03, 0x00,  0x01, 0x00, 0x00, 0x00,  0x64, 0x00, 0x00, 0x00,
      0x00, 0x00, 0x00, 0x00]"

definition nikon_exif :: "Tag list" where
  "nikon_exif =
     [\<lparr>Id = 0x927c, Type = Undef, Count = 36, Offset = 8, Raw = drop 8 nikon_nef,
       family = Exif, order = Some LittleEndian\<rparr>]"

text \<open>
  Two big-endian directories at offset 8: one with the ids 5, 2, 9, one whose only entry
  has the count \<open>0xFFFFFFFF\<close>.
\<close>

definition unsorted_dir :: "byte list" where
  "unsorted_dir =
     [0x4d, 0x4d, 0x00, 0x2a,  0x00, 0x00, 0x00, 0x08,
      0x00, 0x03,
      0x00, 0x05,  0x00, 0x03,  0x00, 0x00, 0x00, 0x01,  0x00, 0x01, 0x00, 0x00,
      0x00, 0x02,  0x00, 0x03,  0x00, 0x00, 0x00, 0x01,  0x00, 0x02, 0x00, 0x00,
      0x00, 0x09,  0x00, 0x03,  0x00, 0x00, 0x00, 0x01,  0x00, 0x03, 0x00, 0x00,
      0x00, 0x00, 0x00, 0x00]"

definition sentinel_dir :: "byte list" where
  "sentinel_dir =
     [0x4d, 0x4d, 0x00, 0x2a,  0x00, 0x00, 0x00, 0x08,
      0x00, 0x01,
      0x00, 0x05,  0x00, 0x01,  0xff, 0xff, 0xff, 0xff,  0x00, 0x00, 0x00, 0x00,
      0x00, 0x00, 0x00, 0x00]"

text \<open>
  A content of seven tags of different formats, inline and external, and the content of
  one \<open>Comment\<close> tag made of two 16-bit elements.
\<close>

definition sample_content :: "content list" where
  "sample_content =
     [\<lparr>cid = 0x100, ctype = Short, cdata = Words16 [640]\<rparr>,
      \<lparr>cid = 0x10f, ctype = String, cdata = Bytes8 [0x4e, 0x49, 0x4b, 0x4f, 0x4e, 0x00]\<rparr>,
      \<lparr>cid = 0x11a, ctype = Rational, cdata = Pairs32 [(300, 1)]\<rparr>,
      \<lparr>cid = 0x8827, ctype = Short, cdata = Words16 [100, 200]\<rparr>,
      \<lparr>cid = 0x9204, ctype = SRational, cdata = Pairs32 [(0xFFFFFFFE, 3)]\<rparr>,
      \<lparr>cid = 0x9286, ctype = Undef, cdata = Bytes8 [0x41, 0x53, 0x43, 0x49, 0x49, 0x48, 0x69]\<rparr>,
      \<lparr>cid = 0xa20e, ctype = SLong, cdata = Words32 [0xFFFFFFFB, 7]\<rparr>]"

definition comment_shorts :: "content list" where
  "comment_shorts = [\<lparr>cid = Comment, ctype = Short, cdata = Words16 [0x4142, 0x4344]\<rparr>]"

section \<open>Properties\<close>

subsection \<open>Evaluation\<close>

declare FormatUint.simps [simp del]
declare SearchLoop.simps [simp del]
declare readEntries.simps(2) [simp del]

lemma FormatUint_numeral [simp]:
  "FormatUint (numeral k) =
     (if numeral k < (10::nat) then [''0123456789'' ! numeral k]
      else FormatUint (numeral k div 10) @ [''0123456789'' ! (numeral k mod 10)])"
  by (rule FormatUint.simps)

lemma FormatUint_0 [simp]: "FormatUint 0 = ''0''"
  by (simp add: FormatUint.simps)

lemma FormatUint_1 [simp]: "FormatUint (Suc 0) = ''1''"
  by (simp add: FormatUint.simps)

lemma le_bytes_numeral [simp]:
  "le_bytes (numeral k) w = ucast w # le_bytes (pred_numeral k) (drop_bit 8 w)"
  by (simp add: numeral_eq_Suc)

lemma upt_numeral: "[i..<numeral k] = (if i < numeral k then i # [Suc i..<numeral k] else [])"
  by (rule upt_rec)

lemmas eval_simps = SearchLoop.simps Search_def Has_def get_def IsJpeg_def IsRaw_def Let_def

subsection \<open>Reading from the buffer\<close>

lemma Uint32_take4: "Uint32 ord (take 4 b) = Uint32 ord b"
  by (cases ord) (simp_all add: Uint32_def)

lemma Uint16_take2: "Uint16 ord (take 2 b) = Uint16 ord b"
  by (cases ord) (simp_all add: Uint16_def)

lemma ReadFull_present:
  "0 < n \<Longrightarrow> i + n \<le> length s \<Longrightarrow> ReadFull s i n = (Inr (take n (drop i s)), i + n)"
  by (auto simp add: ReadFull_def)

lemma ReadFullAt_Inr_iff:
  "0 < n \<Longrightarrow> ReadFullAt s off n = Inr b \<longleftrightarrow> off + n \<le> length s \<and> b = take n (drop off s)"
  by (auto simp add: ReadFullAt_def ReadFull_def)

subsection \<open>Reading one directory\<close>

lemma entryPos_Suc: "entryPos at k + 12 = entryPos at (Suc k)"
  by (simp add: entryPos_def)

lemma entryPos_0: "entryPos at 0 = unat at + 2"
  by (simp add: entryPos_def)

lemma entries_last:
  "0 < j \<Longrightarrow> last (map f [0..<j]) = f (j - 1)"
  by (cases j) simp_all

lemma readEntries_step:
  assumes "entryPresent s at j"
  shows "readEntries s ord delta fam (Suc m) (entryPos at j) (map (entryTag s ord at delta fam) [0..<j]) =
     (if 0 < j \<and> entryId s ord at j \<le> entryId s ord at (j - 1) then Inl ErrNotSorted
      else if entryCount s ord at j = 0xFFFFFFFF then Inl ErrInvalidCount
      else if entrySize s ord at j > 4 then
        (case ReadFullAt s (unat (entryValue s ord at j + delta)) (entrySize s ord at j) of
           Inl e \<Rightarrow> Inl e
         | Inr raw \<Rightarrow> readEntries s ord delta fam m (entryPos at (Suc j))
                        (map (entryTag s ord at delta fam) [0..<j] @
                         [(entryTag s ord at delta fam j)\<lparr>Raw := raw\<rparr>]))
      else readEntries s ord delta fam m (entryPos at (Suc j))
             (map (entryTag s ord at delta fam) [0..<Suc j]))"
proof -
  have rf: "ReadFull s (entryPos at j) 12 = (Inr (entryBytes s at j), entryPos at (Suc j))"
    using assms ReadFull_present[of 12 "entryPos at j" s]
    by (simp add: entryPresent_def entryBytes_def entryPos_Suc)
  have l: "0 < j \<Longrightarrow> Id (last (map (entryTag s ord at delta fam) [0..<j])) = entryId s ord at (j - 1)"
    by (simp add: entries_last entryTag_def)
  show ?thesis
    apply (simp only: readEntries.simps(2) rf prod.case sum.case)
    apply (cases "0 < j")
     apply (simp add: l Let_def Tag_Size_def entryTag_def entryId_def entryType_def entryCount_def
        entryValue_def entrySize_def split: sum.splits)
    apply (simp add: Let_def Tag_Size_def entryTag_def entryId_def entryType_def entryCount_def
        entryValue_def entrySize_def split: sum.splits)
    done
qed


lemma readEntries_absent:
  "\<not> entryPresent s at j \<Longrightarrow>
   \<exists>e. readEntries s ord delta fam (Suc m) (entryPos at j) tags = Inl e \<and> Truncated e"
  by (subst readEntries.simps(2))
     (auto simp add: entryPresent_def ReadFull_def Truncated_def entryPos_Suc[symmetric])

lemma entryTag_Raw:
  "4 < entrySize s ord at j \<Longrightarrow>
   (entryTag s ord at delta fam j)
     \<lparr>Raw := take (entrySize s ord at j) (drop (unat (entryValue s ord at j + delta)) s)\<rparr>
   = entryTag s ord at delta fam j"
  by (simp add: entryTag_def)

lemma readEntries_good:
  assumes "entryPresent s at j" and "\<not> entryBad s ord at j" and "payloadPresent s ord at delta j"
  shows "readEntries s ord delta fam (Suc m) (entryPos at j) (map (entryTag s ord at delta fam) [0..<j]) =
         readEntries s ord delta fam m (entryPos at (Suc j)) (map (entryTag s ord at delta fam) [0..<Suc j])"
proof (cases "4 < entrySize s ord at j")
  case True
  then have "ReadFullAt s (unat (entryValue s ord at j + delta)) (entrySize s ord at j) =
        Inr (take (entrySize s ord at j) (drop (unat (entryValue s ord at j + delta)) s))"
    using assms(3) by (simp add: payloadPresent_def ReadFullAt_Inr_iff)
  then show ?thesis
    using assms(2) True
    by (auto simp add: readEntries_step[OF assms(1)] entryBad_def entryTag_Raw)
next
  case False
  then show ?thesis
    using assms(2) by (auto simp add: readEntries_step[OF assms(1)] entryBad_def)
qed

lemma readEntries_bad:
  assumes "entryPresent s at j" and "entryBad s ord at j"
  shows "\<exists>e. readEntries s ord delta fam (Suc m) (entryPos at j)
               (map (entryTag s ord at delta fam) [0..<j]) = Inl e \<and> DirectoryCorrupt e"
  using assms(2)
  by (auto simp add: readEntries_step[OF assms(1)] entryBad_def DirectoryCorrupt_def)

lemma readEntries_Inr_step:
  assumes "readEntries s ord delta fam (Suc m) (entryPos at j)
             (map (entryTag s ord at delta fam) [0..<j]) = Inr r"
  shows "entryPresent s at j \<and> \<not> entryBad s ord at j \<and> payloadPresent s ord at delta j"
proof -
  have p: "entryPresent s at j"
    using assms readEntries_absent[of s at j ord delta fam m "map (entryTag s ord at delta fam) [0..<j]"] by force
  have nb: "\<not> entryBad s ord at j"
    using assms readEntries_bad[OF p, of ord delta fam m] by fastforce
  have "payloadPresent s ord at delta j"
  proof (cases "4 < entrySize s ord at j")
    case True
    then obtain raw where "ReadFullAt s (unat (entryValue s ord at j + delta)) (entrySize s ord at j) = Inr raw"
      using assms nb by (auto simp add: readEntries_step[OF p] entryBad_def split: sum.splits)
    then show ?thesis using True by (simp add: ReadFullAt_Inr_iff payloadPresent_def)
  next
    case False
    then show ?thesis by (simp add: payloadPresent_def)
  qed
  with p nb show ?thesis by simp
qed

lemma readEntries_Inr:
  "readEntries s ord delta fam m (entryPos at j) (map (entryTag s ord at delta fam) [0..<j]) = Inr (tags, pos)
   \<Longrightarrow> tags = map (entryTag s ord at delta fam) [0..<j + m] \<and> pos = entryPos at (j + m) \<and>
       (\<forall>k. j \<le> k \<and> k < j + m \<longrightarrow>
            entryPresent s at k \<and> \<not> entryBad s ord at k \<and> payloadPresent s ord at delta k)"
proof (induction m arbitrary: j)
  case 0
  then show ?case by auto
next
  case (Suc m)
  have ok: "entryPresent s at j \<and> \<not> entryBad s ord at j \<and> payloadPresent s ord at delta j"
    using readEntries_Inr_step[OF Suc.prems] .
  then have "readEntries s ord delta fam m (entryPos at (Suc j))
               (map (entryTag s ord at delta fam) [0..<Suc j]) = Inr (tags, pos)"
    using Suc.prems readEntries_good[of s at j ord delta fam m] by simp
  from Suc.IH[OF this]
  have ih: "tags = map (entryTag s ord at delta fam) [0..<Suc j + m]" "pos = entryPos at (Suc j + m)"
    "\<forall>k. Suc j \<le> k \<and> k < Suc j + m \<longrightarrow>
            entryPresent s at k \<and> \<not> entryBad s ord at k \<and> payloadPresent s ord at delta k"
    by simp_all
  have "\<forall>k. j \<le> k \<and> k < j + Suc m \<longrightarrow>
            entryPresent s at k \<and> \<not> entryBad s ord at k \<and> payloadPresent s ord at delta k"
  proof (intro allI impI)
    fix k assume k: "j \<le> k \<and> k < j + Suc m"
    show "entryPresent s at k \<and> \<not> entryBad s ord at k \<and> payloadPresent s ord at delta k"
    proof (cases "k = j")
      case True then show ?thesis using ok by simp
    next
      case False
      then have "Suc j \<le> k \<and> k < Suc j + m" using k by simp
      then show ?thesis using ih(3) by blast
    qed
  qed
  then show ?case using ih(1,2) by simp
qed

lemma readEntries_prefix_good:
  "j \<le> n \<Longrightarrow>
   (\<forall>k<j. entryPresent s at k \<and> \<not> entryBad s ord at k \<and> payloadPresent s ord at delta k) \<Longrightarrow>
   readEntries s ord delta fam n (entryPos at 0) [] =
   readEntries s ord delta fam (n - j) (entryPos at j) (map (entryTag s ord at delta fam) [0..<j])"
proof (induction j)
  case 0
  then show ?case by simp
next
  case (Suc j)
  have "n - j = Suc (n - Suc j)" using Suc.prems by simp
  moreover have "entryPresent s at j \<and> \<not> entryBad s ord at j \<and> payloadPresent s ord at delta j"
    using Suc.prems by simp
  ultimately have "readEntries s ord delta fam (n - j) (entryPos at j) (map (entryTag s ord at delta fam) [0..<j]) =
      readEntries s ord delta fam (n - Suc j) (entryPos at (Suc j)) (map (entryTag s ord at delta fam) [0..<Suc j])"
    using readEntries_good[of s at j ord delta fam "n - Suc j"] by simp
  moreover have "readEntries s ord delta fam n (entryPos at 0) [] =
     readEntries s ord delta fam (n - j) (entryPos at j) (map (entryTag s ord at delta fam) [0..<j])"
    using Suc by simp
  ultimately show ?case by simp
qed

lemma readTags_header:
  "unat at + 2 \<le> length s \<Longrightarrow>
   readTags s ord at delta fam = readEntries s ord delta fam (dirCount s ord at) (unat at + 2) []"
  by (simp add: readTags_def ReadFull_present dirCount_def Uint16_take2)

lemma readTags_no_header:
  "\<not> unat at + 2 \<le> length s \<Longrightarrow> \<exists>e. readTags s ord at delta fam = Inl e \<and> Truncated e"
  by (auto simp add: readTags_def ReadFull_def Truncated_def)

lemma readTags_Inr:
  assumes "readTags s ord at delta fam = Inr (tags, pos)"
  shows "tags = map (entryTag s ord at delta fam) [0..<dirCount s ord at] \<and>
         pos = entryPos at (dirCount s ord at) \<and>
         (\<forall>k<dirCount s ord at.
            entryPresent s at k \<and> \<not> entryBad s ord at k \<and> payloadPresent s ord at delta k)"
proof -
  have h: "unat at + 2 \<le> length s"
    using assms readTags_no_header[of at s ord delta fam] by force
  have "readEntries s ord delta fam (dirCount s ord at) (entryPos at 0)
          (map (entryTag s ord at delta fam) [0..<0]) = Inr (tags, pos)"
    using assms readTags_header[OF h] by (simp add: entryPos_0)
  from readEntries_Inr[OF this] show ?thesis by simp
qed

lemma readTags_good:
  assumes "unat at + 2 \<le> length s"
    and "\<forall>k<dirCount s ord at.
            entryPresent s at k \<and> \<not> entryBad s ord at k \<and> payloadPresent s ord at delta k"
  shows "readTags s ord at delta fam =
         Inr (map (entryTag s ord at delta fam) [0..<dirCount s ord at],
              entryPos at (dirCount s ord at))"
  using readEntries_prefix_good[of "dirCount s ord at" "dirCount s ord at" s at ord delta fam] assms
  by (simp add: readTags_header entryPos_0)

lemma entryTags_sorted:
  assumes "\<forall>k<n. \<not> entryBad s ord at k"
  shows "sorted_wrt (<) (map Id (map (entryTag s ord at delta fam) [0..<n]))"
proof -
  have "\<forall>i. Suc i < n \<longrightarrow> entryId s ord at i < entryId s ord at (Suc i)"
  proof (intro allI impI)
    fix i assume "Suc i < n"
    then have "\<not> entryBad s ord at (Suc i)" using assms by blast
    then show "entryId s ord at i < entryId s ord at (Suc i)"
      by (simp add: entryBad_def not_le)
  qed
  then have "\<forall>i. Suc i < length (map (entryId s ord at) [0..<n]) \<longrightarrow>
       map (entryId s ord at) [0..<n] ! i < map (entryId s ord at) [0..<n] ! Suc i"
    by simp
  then have "sorted_wrt (<) (map (entryId s ord at) [0..<n])"
    by (subst sorted_wrt_iff_nth_Suc_transp) (auto simp add: transp_def)
  moreover have "map Id (map (entryTag s ord at delta fam) [0..<n]) = map (entryId s ord at) [0..<n]"
    by (simp add: entryTag_def)
  ultimately show ?thesis by (simp only:)
qed

text \<open>
  C2. A directory that \<open>readTags\<close> decodes has as many tags as its header counts, their
  ids are those of the descriptors in file order and strictly increasing, and no count is
  \<open>0xFFFFFFFF\<close>. Decoding fails whenever one of the counted entries has an id that does not
  exceed the id before it, or the count \<open>0xFFFFFFFF\<close>; the failure is the structural error
  (\<open>tags not sorted properly\<close>, \<open>invalid count\<close>) when the loop reaches that entry, that
  is when the entry lies in the buffer and every entry before it is accepted and has its
  payload in the buffer.
\<close>

theorem readTags_ids_increasing:
  "(readTags s ord at delta fam = Inr (tags, pos) \<longrightarrow>
      length tags = dirCount s ord at \<and> sorted_wrt (<) (map Id tags) \<and>
      (\<forall>k<length tags. Id (tags ! k) = entryId s ord at k \<and> Count (tags ! k) = entryCount s ord at k
                          \<and> Count (tags ! k) \<noteq> 0xFFFFFFFF))
   \<and> (k < dirCount s ord at \<and> entryBad s ord at k \<longrightarrow>
        (\<exists>e. readTags s ord at delta fam = Inl e))
   \<and> (k < dirCount s ord at \<and> entryBad s ord at k \<and> entryPresent s at k \<and>
        (\<forall>i<k. \<not> entryBad s ord at i \<and> payloadPresent s ord at delta i) \<longrightarrow>
        (\<exists>e. readTags s ord at delta fam = Inl e \<and> DirectoryCorrupt e))"
proof (intro conjI impI)
  assume r: "readTags s ord at delta fam = Inr (tags, pos)"
  note c = readTags_Inr[OF r]
  show "length tags = dirCount s ord at" using c by simp
  show "sorted_wrt (<) (map Id tags)"
    using c entryTags_sorted[of "dirCount s ord at" s ord at delta fam] by simp
  show "\<forall>k<length tags. Id (tags ! k) = entryId s ord at k \<and> Count (tags ! k) = entryCount s ord at k
                          \<and> Count (tags ! k) \<noteq> 0xFFFFFFFF"
    using c by (auto simp add: entryTag_def entryBad_def)
next
  assume a: "k < dirCount s ord at \<and> entryBad s ord at k"
  show "\<exists>e. readTags s ord at delta fam = Inl e"
  proof (cases "readTags s ord at delta fam")
    case (Inl e) then show ?thesis by simp
  next
    case (Inr r)
    obtain tags pos where "r = (tags, pos)" by (cases r)
    then have "readTags s ord at delta fam = Inr (tags, pos)" using Inr by simp
    from readTags_Inr[OF this] have "\<not> entryBad s ord at k" using a by blast
    then show ?thesis using a by simp
  qed
next
  assume a: "k < dirCount s ord at \<and> entryBad s ord at k \<and> entryPresent s at k \<and>
        (\<forall>i<k. \<not> entryBad s ord at i \<and> payloadPresent s ord at delta i)"
  then have h: "unat at + 2 \<le> length s" by (simp add: entryPresent_def entryPos_def)
  have pres: "\<forall>i<k. entryPresent s at i" using a by (auto simp add: entryPresent_def entryPos_def)
  have "readTags s ord at delta fam =
        readEntries s ord delta fam (dirCount s ord at - k) (entryPos at k)
          (map (entryTag s ord at delta fam) [0..<k])"
    using readEntries_prefix_good[of k "dirCount s ord at" s at ord delta fam] a pres
    by (simp add: readTags_header[OF h] entryPos_0)
  moreover have "k < dirCount s ord at" using a by simp
  then have "dirCount s ord at - k = Suc (dirCount s ord at - Suc k)" by simp
  moreover have "entryPresent s at k" "entryBad s ord at k" using a by simp_all
  ultimately show "\<exists>e. readTags s ord at delta fam = Inl e \<and> DirectoryCorrupt e"
    using readEntries_bad[of s at k ord delta fam "dirCount s ord at - Suc k"] by simp
qed

theorem readTags_ids_increasing_witness:
  "readTags truncated_nef LittleEndian 8 0 Tiff = Inr (tiff truncated_file, 58) \<and>
   length (tiff truncated_file) = dirCount truncated_nef LittleEndian 8 \<and>
   sorted_wrt (<) (map Id (tiff truncated_file)) \<and>
   map Id (tiff truncated_file) = [0x101, 0x111, 0x116, 0x117] \<and>
   map (entryId unsorted_dir BigEndian 8) [0, 1, 2] = [5, 2, 9] \<and>
   1 < dirCount unsorted_dir BigEndian 8 \<and> entryBad unsorted_dir BigEndian 8 1 \<and>
   entryPresent unsorted_dir 8 1 \<and>
   \<not> entryBad unsorted_dir BigEndian 8 0 \<and> payloadPresent unsorted_dir BigEndian 8 0 0 \<and>
   readTags unsorted_dir BigEndian 8 0 Tiff = Inl ErrNotSorted \<and> DirectoryCorrupt ErrNotSorted \<and>
   0 < dirCount sentinel_dir BigEndian 8 \<and> entryBad sentinel_dir BigEndian 8 0 \<and>
   entryPresent sentinel_dir 8 0 \<and>
   readTags sentinel_dir BigEndian 8 0 Tiff = Inl ErrInvalidCount \<and> DirectoryCorrupt ErrInvalidCount"
proof -
  have a: "readTags truncated_nef LittleEndian 8 0 Tiff = Inr (tiff truncated_file, 58)"
    by code_simp
  have b: "map Id (tiff truncated_file) = [0x101, 0x111, 0x116, 0x117]"
    by code_simp
  have c: "map (entryId unsorted_dir BigEndian 8) [0, 1, 2] = [5, 2, 9]"
    by code_simp
  have d: "1 < dirCount unsorted_dir BigEndian 8 \<and> entryBad unsorted_dir BigEndian 8 1 \<and>
           entryPresent unsorted_dir 8 1"
    by code_simp
  have e0: "\<not> entryBad unsorted_dir BigEndian 8 0 \<and> payloadPresent unsorted_dir BigEndian 8 0 0"
    by code_simp
  have e: "\<forall>i<1. \<not> entryBad unsorted_dir BigEndian 8 i \<and> payloadPresent unsorted_dir BigEndian 8 0 i"
    using e0 by simp
  have f: "readTags unsorted_dir BigEndian 8 0 Tiff = Inl ErrNotSorted"
    by code_simp
  have g: "0 < dirCount sentinel_dir BigEndian 8 \<and> entryBad sentinel_dir BigEndian 8 0 \<and>
           entryPresent sentinel_dir 8 0"
    by code_simp
  have h: "readTags sentinel_dir BigEndian 8 0 Tiff = Inl ErrInvalidCount"
    by code_simp
  show ?thesis
    using readTags_ids_increasing[of truncated_nef LittleEndian 8 0 Tiff "tiff truncated_file" 58 0]
      readTags_ids_increasing[of unsorted_dir BigEndian 8 0 Tiff "[]" 0 1]
      readTags_ids_increasing[of sentinel_dir BigEndian 8 0 Tiff "[]" 0 0]
      a b c d e0 e f g h
    by (simp add: DirectoryCorrupt_def)
qed

text \<open>
  C1. \<open>readTags\<close> adds the rebase to the value field before it looks at the payload size,
  and builds the raw bytes of an inline tag from the sum. In the MakerNote of \<open>nikon_nef\<close>
  the rebase is 18: the descriptor of tag 2 holds the inline bytes \<open>64 00 00 00\<close> (100),
  the tag's raw bytes are \<open>76 00 00 00\<close> and its value prints as 118.
\<close>

theorem readTags_inline_rebased:
  "notesTags nikon_nef nikon_exif = Inr
     [\<lparr>Id = 0x2, Type = Short, Count = 1, Offset = 118, Raw = [0x76, 0x00, 0x00, 0x00],
       family = Note, order = Some LittleEndian\<rparr>] \<and>
   readTags nikon_nef LittleEndian 26 18 Note = Inr
     ([\<lparr>Id = 0x2, Type = Short, Count = 1, Offset = 118, Raw = [0x76, 0x00, 0x00, 0x00],
       family = Note, order = Some LittleEndian\<rparr>], 40) \<and>
   entrySize nikon_nef LittleEndian 26 0 = 2 \<and>
   drop 8 (entryBytes nikon_nef 26 0) = [0x64, 0x00, 0x00, 0x00] \<and>
   PutUint32 LittleEndian (entryValue nikon_nef LittleEndian 26 0) = [0x64, 0x00, 0x00, 0x00] \<and>
   Values extern_stub \<lparr>Id = 0x2, Type = Short, Count = 1, Offset = 118, Raw = [0x76, 0x00, 0x00, 0x00],
       family = Note, order = Some LittleEndian\<rparr> = Inr [''118'']"
  by code_simp

subsection \<open>Binary search over a sorted tag vector\<close>

lemma SearchLoop_spec:
  shows "(\<And>a b. a \<le> b \<Longrightarrow> b < n \<Longrightarrow> f a \<Longrightarrow> f b) \<Longrightarrow> i \<le> j \<Longrightarrow> j \<le> n \<Longrightarrow> (\<forall>k<i. \<not> f k) \<Longrightarrow> (\<forall>k. j \<le> k \<and> k < n \<longrightarrow> f k) \<Longrightarrow>
         i \<le> SearchLoop i j f \<and> SearchLoop i j f \<le> j \<and>
         (\<forall>k<SearchLoop i j f. \<not> f k) \<and> (\<forall>k. SearchLoop i j f \<le> k \<and> k < n \<longrightarrow> f k)"
proof (induction i j f rule: SearchLoop.induct)
  case (1 i j f)
  note mono = "1.prems"(1)
  note bounds = "1.prems"(2-)
  show ?case
  proof (cases "i < j")
    case False
    then have "SearchLoop i j f = i" by (subst SearchLoop.simps) simp
    with False bounds show ?thesis by simp
  next
    case True
    define h where "h = (i + j) div 2"
    have hb: "i \<le> h" "h < j" using True by (simp_all add: h_def)
    show ?thesis
    proof (cases "f h")
      case fh: True
      have low: "\<forall>k. h \<le> k \<and> k < n \<longrightarrow> f k"
      proof (intro allI impI)
        fix k assume "h \<le> k \<and> k < n"
        then show "f k" using mono[of h k] fh by simp
      qed
      have eq: "SearchLoop i j f = SearchLoop i h f"
        using True fh by (subst SearchLoop.simps) (simp add: h_def Let_def)
      have "i \<le> SearchLoop i h f \<and> SearchLoop i h f \<le> h \<and>
            (\<forall>k<SearchLoop i h f. \<not> f k) \<and> (\<forall>k. SearchLoop i h f \<le> k \<and> k < n \<longrightarrow> f k)"
        using "1.IH"(2)[OF True refl _ mono] fh hb bounds low
        by (simp add: h_def)
      then show ?thesis using eq hb by (simp only:) auto
    next
      case nfh: False
      have up: "\<forall>k<h + 1. \<not> f k"
      proof (intro allI impI)
        fix k assume "k < h + 1"
        then have "k \<le> h" by simp
        moreover have "h < n" using hb bounds by simp
        ultimately show "\<not> f k" using mono[of k h] nfh by auto
      qed
      have eq: "SearchLoop i j f = SearchLoop (h + 1) j f"
        using True nfh by (subst SearchLoop.simps) (simp add: h_def Let_def)
      have "h + 1 \<le> SearchLoop (h + 1) j f \<and> SearchLoop (h + 1) j f \<le> j \<and>
            (\<forall>k<SearchLoop (h + 1) j f. \<not> f k) \<and> (\<forall>k. SearchLoop (h + 1) j f \<le> k \<and> k < n \<longrightarrow> f k)"
        using "1.IH"(1)[OF True refl _ mono] nfh hb bounds up
        by (simp add: h_def)
      then show ?thesis using eq hb by auto
    qed
  qed
qed


lemma sorted_ids_nth:
  assumes "sorted_wrt (<) (map Id tags)" and "a < b" and "b < length tags"
  shows "Id (tags ! a) < Id (tags ! b)"
proof -
  have "map Id tags ! a < map Id tags ! b"
    using assms by (simp add: sorted_wrt_iff_nth_less)
  then show ?thesis using assms by simp
qed

lemma Search_sorted:
  assumes "sorted_wrt (<) (map Id tags)"
  shows "(Search (length tags) (\<lambda>i. ident \<le> Id (tags ! i)) < length tags \<and>
          Id (tags ! Search (length tags) (\<lambda>i. ident \<le> Id (tags ! i))) = ident)
         \<longleftrightarrow> ident \<in> Id ` set tags"
proof -
  let ?f = "\<lambda>i. ident \<le> Id (tags ! i)"
  let ?x = "Search (length tags) ?f"
  have mono: "\<And>a b. a \<le> b \<Longrightarrow> b < length tags \<Longrightarrow> ?f a \<Longrightarrow> ?f b"
  proof -
    fix a b assume ab: "a \<le> b" "b < length tags" "?f a"
    have "Id (tags ! a) \<le> Id (tags ! b)"
    proof (cases "a = b")
      case True then show ?thesis by simp
    next
      case False
      then have "a < b" using ab by simp
      then have "Id (tags ! a) < Id (tags ! b)"
        using assms ab by (intro sorted_ids_nth)
      then show ?thesis by simp
    qed
    then show "?f b" using ab by simp
  qed
  have spec: "(\<forall>k<?x. \<not> ?f k) \<and> (\<forall>k. ?x \<le> k \<and> k < length tags \<longrightarrow> ?f k)"
    unfolding Search_def
    by (rule SearchLoop_spec[where n = "length tags" and i = 0 and j = "length tags" and f = ?f,
          THEN conjunct2, THEN conjunct2]) (erule (2) mono, auto)
  show ?thesis
  proof
    assume "?x < length tags \<and> Id (tags ! ?x) = ident"
    then show "ident \<in> Id ` set tags" by (metis imageI nth_mem)
  next
    assume "ident \<in> Id ` set tags"
    then obtain m where m: "m < length tags" "Id (tags ! m) = ident"
      by (auto simp add: in_set_conv_nth)
    have "?f m" using m by simp
    then have xm: "?x \<le> m" using spec by (meson not_le_imp_less)
    then have xl: "?x < length tags" using m by simp
    have ge: "ident \<le> Id (tags ! ?x)" using spec xl by blast
    have "Id (tags ! ?x) \<le> Id (tags ! m)"
    proof (cases "?x = m")
      case True then show ?thesis by simp
    next
      case False
      then have "?x < m" using xm by simp
      then have "Id (tags ! ?x) < Id (tags ! m)"
        using assms m by (intro sorted_ids_nth)
      then show ?thesis by simp
    qed
    with ge m xl show "?x < length tags \<and> Id (tags ! ?x) = ident" by simp
  qed
qed

lemma Search_absent:
  "ident \<notin> Id ` set tags \<Longrightarrow>
   length tags \<le> Search (length tags) g \<or> Id (tags ! Search (length tags) g) \<noteq> ident"
  by (metis imageI not_le_imp_less nth_mem)

lemma Has_sorted: "sorted_wrt (<) (map Id (tiff f)) \<Longrightarrow> Has f ident \<longleftrightarrow> ident \<in> Id ` set (tiff f)"
  using Search_sorted[of "tiff f" ident] by (simp add: Has_def Let_def)

lemma get_absent: "ident \<notin> Id ` set (tiff f) \<Longrightarrow> get f ident = Inl ErrExist"
  using Search_absent[of ident "tiff f" "\<lambda>i. ident \<le> Id (tiff f ! i)"] by (auto simp add: get_def Let_def)

lemma Has_absent: "ident \<notin> Id ` set (tiff f) \<Longrightarrow> \<not> Has f ident"
  using Search_absent[of ident "tiff f" "\<lambda>i. ident \<le> Id (tiff f ! i)"] by (auto simp add: Has_def Let_def)

subsection \<open>Image classification\<close>

text \<open>
  C5. The tag vectors of a \<open>File\<close> come from \<open>readTags\<close>, so their ids are strictly
  increasing. On such a file \<open>IsJpeg\<close> holds exactly when the TIFF tags contain both
  \<open>0x201\<close> and \<open>0x202\<close>, and \<open>IsRaw\<close> exactly when they contain \<open>0x111\<close>, \<open>0x116\<close>
  and \<open>0x117\<close>. With neither set, \<open>Image\<close> and \<open>Bytes\<close> both fail with \<open>ErrImage\<close>;
  with both sets, both take the embedded-JPEG path.
\<close>

theorem image_classification:
  assumes "sorted_wrt (<) (map Id (tiff f))"
  shows "(IsJpeg f \<longleftrightarrow> JpegFromRawStart \<in> Id ` set (tiff f) \<and> JpegFromRawLength \<in> Id ` set (tiff f))
       \<and> (IsRaw f \<longleftrightarrow> StripOffsets \<in> Id ` set (tiff f) \<and> RowsPerStrip \<in> Id ` set (tiff f)
                        \<and> StripByteCounts \<in> Id ` set (tiff f))
       \<and> (\<not> IsJpeg f \<and> \<not> IsRaw f \<longrightarrow> Image dec f = Inl ErrImage \<and> Bytes f = Inl ErrImage)
       \<and> (IsJpeg f \<and> IsRaw f \<longrightarrow> Image dec f = decodeJpeg dec f \<and> Bytes f = processJpeg f)"
  using Has_sorted[OF assms] by (simp add: IsJpeg_def IsRaw_def Image_def Bytes_def)

theorem image_classification_witness:
  "sorted_wrt (<) (map Id (tiff both_file)) \<and> IsJpeg both_file \<and> IsRaw both_file \<and>
   Image jpeg_stub both_file = decodeJpeg jpeg_stub both_file \<and>
   Bytes both_file = Inr [0xff, 0xd8, 0xff, 0xd9] \<and>
   sorted_wrt (<) (map Id (tiff empty_file)) \<and> \<not> IsJpeg empty_file \<and> \<not> IsRaw empty_file \<and>
   Image jpeg_stub empty_file = Inl ErrImage \<and> Bytes empty_file = Inl ErrImage"
proof -
  have s1: "sorted_wrt (<) (map Id (tiff both_file))"
    by (simp add: both_file_def longTag_def)
  have s2: "sorted_wrt (<) (map Id (tiff empty_file))"
    by (simp add: empty_file_def)
  have j: "processJpeg both_file = Inr [0xff, 0xd8, 0xff, 0xd9]"
    by (simp add: processJpeg_def both_file_def longTag_def eval_simps orZero_def ReadFullAt_def ReadFull_def)
  show ?thesis
    using image_classification[OF s1, of jpeg_stub] image_classification[OF s2, of jpeg_stub] s1 s2 j
    by (simp add: both_file_def empty_file_def longTag_def)
qed

text \<open>
  C10. A file whose TIFF tags hold no Photometric tag (\<open>0x106\<close>) is reported as supported
  and of type \<open>jpeg\<close>, also when it has neither the embedded-JPEG nor the raw-strip
  tags, in which case \<open>Image\<close> fails with \<open>ErrImage\<close>.
\<close>

theorem no_photometric_is_jpeg:
  assumes "Photometric \<notin> Id ` set (tiff f)"
  shows "IsSupported f = Inr True \<and> ImageType f = Inr ''jpeg'' \<and>
         (\<not> IsJpeg f \<and> \<not> IsRaw f \<longrightarrow> Image dec f = Inl ErrImage)"
  using get_absent[OF assms] by (simp add: IsSupported_def ImageType_def Image_def)

theorem no_photometric_is_jpeg_witness:
  "Photometric \<notin> Id ` set (tiff empty_file) \<and> \<not> IsJpeg empty_file \<and> \<not> IsRaw empty_file \<and>
   IsSupported empty_file = Inr True \<and> ImageType empty_file = Inr ''jpeg'' \<and>
   Image jpeg_stub empty_file = Inl ErrImage"
  using no_photometric_is_jpeg[of empty_file jpeg_stub]
  by (simp add: empty_file_def eval_simps)

subsection \<open>Looking up one tag\<close>

text \<open>
  C9. \<open>GetTag\<close> has no case for the family \<open>Gps\<close>, which \<open>TagsFor\<close> has: a GPS tag that
  \<open>TagsFor\<close> lists is not found by \<open>GetTag\<close>.
\<close>

theorem GetTag_Gps_not_found:
  "TagsFor gps_file 0x8825 = gps gps_file \<and> Id (hd (gps gps_file)) = 0 \<and>
   GetTag gps_file 0 Gps = Inl ErrExist"
  by (simp add: gps_file_def TagsFor_def GetTag_def)

subsection \<open>Raw strips\<close>







text \<open>
  C4. A strip that runs past the end of the buffer is not an error: \<open>ioutil.ReadAll\<close>
  returns the bytes that are there. \<open>truncated_file\<close> announces a strip of 10 bytes at
  offset 62 of a buffer of 66 bytes, and \<open>Bytes\<close> returns the 4 bytes.
\<close>

theorem processRaw_short_strip:
  "readTags truncated_nef LittleEndian 8 0 Tiff = Inr (tiff truncated_file, 58) \<and>
   length truncated_nef = 66 \<and>
   stripAt (orZero (get truncated_file StripOffsets)) 0 = 62 \<and>
   stripAt (orZero (get truncated_file StripByteCounts)) 0 = 10 \<and>
   IsRaw truncated_file \<and> \<not> IsJpeg truncated_file \<and>
   Bytes truncated_file = Inr [0xde, 0xad, 0xbe, 0xef]"
  by code_simp

subsection \<open>The value codec\<close>

lemma binaryRead32_full:
  "order t = Some ord \<Longrightarrow> p + 4 \<le> length (Raw t) \<Longrightarrow>
   binaryRead 4 Uint32 t p = (Inr (Uint32 ord (drop p (Raw t))), p + 4)"
  by (auto simp add: binaryRead_def ReadFull_def Uint32_take4)

lemma readEach_rational:
  assumes "order t = Some ord"
  shows "8 * (i + k) \<le> length (Raw t) \<Longrightarrow>
   readEach k (8 * i)
       (\<lambda>p. case binaryRead 4 Uint32 t p of
               (Inl e, p1) \<Rightarrow> (Inl e, p1)
             | (Inr n, p1) \<Rightarrow>
                 (case binaryRead 4 Uint32 t p1 of
                    (Inl e, p2) \<Rightarrow> (Inl e, p2)
                  | (Inr d, p2) \<Rightarrow>
                      (Inr (FormatUint (unat n) @ ''/'' @ FormatUint (unat d)), p2)))
   = Inr (map (\<lambda>j. FormatUint (unat (Uint32 ord (drop (8 * j) (Raw t)))) @ ''/'' @
                    FormatUint (unat (Uint32 ord (drop (8 * j + 4) (Raw t))))) [i..<i + k])"
proof (induction k arbitrary: i)
  case 0
  then show ?case by simp
next
  case (Suc k)
  have a: "8 * i + 4 \<le> length (Raw t)" "8 * i + 4 + 4 \<le> length (Raw t)"
    using Suc.prems by simp_all
  have b: "8 * i + 4 + 4 = 8 * Suc i" by simp
  have c: "8 * (Suc i + k) \<le> length (Raw t)" using Suc.prems by simp
  show ?case
    apply (simp only: readEach.simps binaryRead32_full[OF assms a(1)] binaryRead32_full[OF assms a(2)] prod.case sum.case b Suc.IH[OF c])
    apply (simp add: upt_rec[of i])
    done
qed

text \<open>
  C7. \<open>decodeRational\<close> prints each element of a Rational tag as the decimal numerator,
  a slash and the decimal denominator, both read as 32-bit unsigned numbers in the tag's
  byte order from the element's 8 bytes; nothing is reduced or divided. \<open>Values\<close> returns
  this for a Rational tag whose id is not \<open>Xmp\<close> or \<open>Comment\<close>.
\<close>

theorem decodeRational_literal:
  assumes "order t = Some ord" and "8 * unat (Count t) \<le> length (Raw t)"
  shows "decodeRational t =
           Inr (map (\<lambda>j. FormatUint (unat (Uint32 ord (drop (8 * j) (Raw t)))) @ ''/'' @
                          FormatUint (unat (Uint32 ord (drop (8 * j + 4) (Raw t)))))
                  [0..<unat (Count t)])
         \<and> (Type t = Rational \<and> Id t \<noteq> Xmp \<and> Id t \<noteq> Comment \<longrightarrow>
              Values E t = decodeRational t)"
  using readEach_rational[OF assms(1), of 0 "unat (Count t)"] assms(2)
  by (simp add: decodeRational_def Values_def)

theorem decodeRational_literal_witness:
  "order rational_pairs = Some BigEndian \<and>
   8 * unat (Count rational_pairs) \<le> length (Raw rational_pairs) \<and>
   Type rational_pairs = Rational \<and> Id rational_pairs \<noteq> Xmp \<and> Id rational_pairs \<noteq> Comment \<and>
   decodeRational rational_pairs = Inr [''1/3'', ''2/4''] \<and>
   Values extern_stub rational_pairs = Inr [''1/3'', ''2/4'']"
  using decodeRational_literal[of rational_pairs BigEndian extern_stub]
  by (simp add: rational_pairs_def Uint32_def upt_numeral)

lemma forEach_not_ErrFormat:
  "(\<And>i. el i \<noteq> Inl ErrFormat) \<Longrightarrow> forEach n i el \<noteq> Inl ErrFormat"
proof (induction n arbitrary: i)
  case 0
  then show ?case by simp
next
  case (Suc n)
  show ?case
    using Suc.prems[of i] Suc.IH[OF Suc.prems, of "Suc i"]
    by (auto split: sum.splits)
qed

lemma readEach_not_ErrFormat:
  "(\<And>p. fst (el p) \<noteq> Inl ErrFormat) \<Longrightarrow> readEach n p el \<noteq> Inl ErrFormat"
proof (induction n arbitrary: p)
  case 0
  then show ?case by simp
next
  case (Suc n)
  obtain r p' where e: "el p = (r, p')" by (cases "el p")
  show ?case
    using Suc.prems[of p] Suc.IH[OF Suc.prems, of p'] e
    by (auto split: sum.splits)
qed

lemma binaryRead_not_ErrFormat: "fst (binaryRead w dec t p) \<noteq> Inl ErrFormat"
  by (auto simp add: binaryRead_def split: prod.splits sum.splits option.splits)

lemma readEach_binaryRead_not_ErrFormat:
  "readEach n p
     (\<lambda>p. case binaryRead w dec t p of
             (Inl e, p') \<Rightarrow> (Inl e, p')
           | (Inr s, p') \<Rightarrow> (Inr (fmt s), p')) \<noteq> Inl ErrFormat"
proof (rule readEach_not_ErrFormat)
  fix p
  obtain r p' where a: "binaryRead w dec t p = (r, p')" by (cases "binaryRead w dec t p")
  have "r \<noteq> Inl ErrFormat"
    using binaryRead_not_ErrFormat[of w dec t p] a by simp
  then show "fst (case binaryRead w dec t p of
             (Inl e, p') \<Rightarrow> (Inl e, p')
           | (Inr s, p') \<Rightarrow> (Inr (fmt s), p')) \<noteq> Inl ErrFormat"
    using a by (auto split: sum.splits)
qed

lemma decodeShort_not_ErrFormat: "decodeShort t \<noteq> Inl ErrFormat"
  unfolding decodeShort_def
  by (rule forEach_not_ErrFormat) (auto split: option.splits)

lemma decodeLong_not_ErrFormat: "decodeLong t \<noteq> Inl ErrFormat"
  unfolding decodeLong_def
  by (rule forEach_not_ErrFormat) (auto split: option.splits)

lemma decodeByte_not_ErrFormat: "decodeByte t \<noteq> Inl ErrFormat"
  unfolding decodeByte_def
  by (rule forEach_not_ErrFormat) auto

lemma decodeSignedShort_not_ErrFormat: "decodeSignedShort t \<noteq> Inl ErrFormat"
  unfolding decodeSignedShort_def by (rule readEach_binaryRead_not_ErrFormat)

lemma decodeSignedLong_not_ErrFormat: "decodeSignedLong t \<noteq> Inl ErrFormat"
  unfolding decodeSignedLong_def by (rule readEach_binaryRead_not_ErrFormat)

lemma decodeFloat_not_ErrFormat: "decodeFloat E t \<noteq> Inl ErrFormat"
  unfolding decodeFloat_def by (rule readEach_binaryRead_not_ErrFormat)

lemma decodeDouble_not_ErrFormat: "decodeDouble E t \<noteq> Inl ErrFormat"
  unfolding decodeDouble_def by (rule readEach_binaryRead_not_ErrFormat)

lemma decodeRational_not_ErrFormat: "decodeRational t \<noteq> Inl ErrFormat"
  unfolding decodeRational_def
proof (rule readEach_not_ErrFormat)
  fix p
  obtain r1 p1 where a: "binaryRead 4 Uint32 t p = (r1, p1)" by (cases "binaryRead 4 Uint32 t p")
  obtain r2 p2 where b: "binaryRead 4 Uint32 t p1 = (r2, p2)" by (cases "binaryRead 4 Uint32 t p1")
  have "r1 \<noteq> Inl ErrFormat" "r2 \<noteq> Inl ErrFormat"
    using binaryRead_not_ErrFormat[of 4 Uint32 t p] binaryRead_not_ErrFormat[of 4 Uint32 t p1] a b
    by simp_all
  then show "fst (case binaryRead 4 Uint32 t p of
               (Inl e, p1) \<Rightarrow> (Inl e, p1)
             | (Inr n, p1) \<Rightarrow>
                 (case binaryRead 4 Uint32 t p1 of
                    (Inl e, p2) \<Rightarrow> (Inl e, p2)
                  | (Inr d, p2) \<Rightarrow>
                      (Inr (FormatUint (unat n) @ ''/'' @ FormatUint (unat d)), p2))) \<noteq> Inl ErrFormat"
    using a b by (auto split: sum.splits)
qed

lemma decodeSignedRational_not_ErrFormat: "decodeSignedRational t \<noteq> Inl ErrFormat"
  unfolding decodeSignedRational_def
proof (rule readEach_not_ErrFormat)
  fix p
  obtain r1 p1 where a: "binaryRead 4 Uint32 t p = (r1, p1)" by (cases "binaryRead 4 Uint32 t p")
  obtain r2 p2 where b: "binaryRead 4 Uint32 t p1 = (r2, p2)" by (cases "binaryRead 4 Uint32 t p1")
  have "r1 \<noteq> Inl ErrFormat" "r2 \<noteq> Inl ErrFormat"
    using binaryRead_not_ErrFormat[of 4 Uint32 t p] binaryRead_not_ErrFormat[of 4 Uint32 t p1] a b
    by simp_all
  then show "fst (case binaryRead 4 Uint32 t p of
               (Inl e, p1) \<Rightarrow> (Inl e, p1)
             | (Inr n, p1) \<Rightarrow>
                 (case binaryRead 4 Uint32 t p1 of
                    (Inl e, p2) \<Rightarrow> (Inl e, p2)
                  | (Inr d, p2) \<Rightarrow>
                      (Inr (FormatInt (sint n) @ ''/'' @ FormatInt (sint d)), p2))) \<noteq> Inl ErrFormat"
    using a b by (auto split: sum.splits)
qed

lemmas decoders_not_ErrFormat =
  decodeShort_not_ErrFormat decodeLong_not_ErrFormat decodeByte_not_ErrFormat
  decodeSignedShort_not_ErrFormat decodeSignedLong_not_ErrFormat
  decodeRational_not_ErrFormat decodeSignedRational_not_ErrFormat

lemma Format_outside_twelve:
  "(f = 0 \<or> Double < f) \<longleftrightarrow>
   \<not> (f = Byte \<or> f = String \<or> f = Short \<or> f = Long \<or> f = Rational \<or> f = SByte \<or> f = Undef
      \<or> f = SShort \<or> f = SLong \<or> f = SRational \<or> f = Float \<or> f = Double)"
proof
  assume "f = 0 \<or> Double < f"
  then show "\<not> (f = Byte \<or> f = String \<or> f = Short \<or> f = Long \<or> f = Rational \<or> f = SByte \<or> f = Undef
      \<or> f = SShort \<or> f = SLong \<or> f = SRational \<or> f = Float \<or> f = Double)"
    by auto
next
  assume n: "\<not> (f = Byte \<or> f = String \<or> f = Short \<or> f = Long \<or> f = Rational \<or> f = SByte \<or> f = Undef
      \<or> f = SShort \<or> f = SLong \<or> f = SRational \<or> f = Float \<or> f = Double)"
  show "f = 0 \<or> Double < f"
  proof (rule ccontr)
    assume "\<not> (f = 0 \<or> Double < f)"
    then have a: "unat f \<noteq> 0" "unat f \<le> 12"
      by (simp_all add: unat_eq_0 word_less_nat_alt not_less)
    then have "unat f = 1 \<or> unat f = 2 \<or> unat f = 3 \<or> unat f = 4 \<or> unat f = 5 \<or> unat f = 6
        \<or> unat f = 7 \<or> unat f = 8 \<or> unat f = 9 \<or> unat f = 10 \<or> unat f = 11 \<or> unat f = 12"
      by presburger
    then have "unat f \<in> {1, 2, 3, 4, 5, 6, 7, 8, 9, 10, 11, 12}" by simp
    moreover have "of_nat (unat f) = f" by simp
    ultimately have "f \<in> of_nat ` {1, 2, 3, 4, 5, 6, 7, 8, 9, 10, 11, 12}"
      by (metis imageI)
    then show False using n by simp
  qed
qed

text \<open>
  C8 as the specification states it: \<open>Values\<close> fails with \<open>ErrFormat\<close> on a tag of type
  Undefined. It does not: the case \<open>Undef\<close> of the switch is empty and returns no error.
\<close>

theorem Values_Undef_counterexample:
  "Type undef_tag = Undef \<and> Id undef_tag \<noteq> Xmp \<and> Id undef_tag \<noteq> Comment \<and>
   Values extern_stub undef_tag \<noteq> Inl ErrFormat"
  by (simp add: undef_tag_def Values_def)

text \<open>
  C8, amended. For a tag of type Undefined whose id is not \<open>Xmp\<close> or \<open>Comment\<close>,
  \<open>Values\<close> succeeds with the empty sequence. \<open>Values\<close> fails with \<open>ErrFormat\<close>
  exactly when the id is not \<open>Xmp\<close> or \<open>Comment\<close> and the type is outside the twelve
  formats (0, or above \<open>Double\<close>): none of the decoders returns that error.
\<close>

theorem Values_Undef_empty:
  "(Type t = Undef \<and> Id t \<noteq> Xmp \<and> Id t \<noteq> Comment \<longrightarrow> Values E t = Inr [])
   \<and> (Values E t = Inl ErrFormat \<longleftrightarrow>
        Id t \<noteq> Xmp \<and> Id t \<noteq> Comment \<and> (Type t = 0 \<or> Type t > Double))"
proof (intro conjI)
  show "Type t = Undef \<and> Id t \<noteq> Xmp \<and> Id t \<noteq> Comment \<longrightarrow> Values E t = Inr []"
    by (simp add: Values_def)
  show "Values E t = Inl ErrFormat \<longleftrightarrow>
        Id t \<noteq> Xmp \<and> Id t \<noteq> Comment \<and> (Type t = 0 \<or> Type t > Double)"
    unfolding Format_outside_twelve
    using decoders_not_ErrFormat[of t] decodeFloat_not_ErrFormat[of E t] decodeDouble_not_ErrFormat[of E t]
    by (simp add: Values_def)
qed

theorem Values_Undef_empty_witness:
  "Type undef_tag = Undef \<and> Id undef_tag \<noteq> Xmp \<and> Id undef_tag \<noteq> Comment \<and>
   Values extern_stub undef_tag = Inr [] \<and>
   Id unknown_tag \<noteq> Xmp \<and> Id unknown_tag \<noteq> Comment \<and> Type unknown_tag > Double \<and>
   Values extern_stub unknown_tag = Inl ErrFormat"
  using Values_Undef_empty[of undef_tag extern_stub] Values_Undef_empty[of unknown_tag extern_stub]
  by (simp add: undef_tag_def unknown_tag_def)

subsection \<open>The byte order of a file\<close>

lemma length_le_bytes [simp]: "length (le_bytes n w) = n"
  by (induction n arbitrary: w) auto

lemma bit_byte_less: "bit (b::byte) n \<Longrightarrow> n < 8"
  using bit_imp_le_length[of b n] by simp

lemma le_word_le_bytes: "le_word (le_bytes n (w::'a::len word)) = take_bit (8 * n) w"
proof (induction n arbitrary: w)
  case 0 then show ?case by simp
next
  case (Suc n)
  show ?case
    apply (simp add: Suc)
    apply (rule bit_eqI)
    apply (auto simp add: bit_simps dest: bit_byte_less)
    done
qed

lemma le_bytes_take_bit:
  "8 * n \<le> m \<Longrightarrow> le_bytes n (take_bit m w) = le_bytes n (w :: 'a::len word)"
proof (induction n arbitrary: w m)
  case 0 then show ?case by simp
next
  case (Suc n)
  have a: "(ucast (take_bit m w) :: byte) = ucast w"
    using Suc.prems by (intro bit_eqI) (auto simp add: bit_simps)
  have b: "drop_bit 8 (take_bit m w) = take_bit (m - 8) (drop_bit 8 w)"
    using Suc.prems by (intro bit_eqI) (auto simp add: bit_simps)
  show ?case using Suc.prems by (simp add: a b Suc.IH)
qed

lemma le_bytes_le_word:
  "8 * length bs \<le> LENGTH('a) \<Longrightarrow> le_bytes (length bs) (le_word bs :: 'a::len word) = bs"
proof (induction bs)
  case Nil then show ?case by simp
next
  case (Cons b bs)
  let ?w = "ucast b OR push_bit 8 (le_word bs :: 'a word) :: 'a word"
  have a: "ucast ?w = b"
    using Cons.prems by (intro bit_eqI) (auto simp add: bit_simps dest: bit_byte_less)
  have c: "drop_bit 8 ?w = take_bit (LENGTH('a) - 8) (le_word bs :: 'a word)"
    by (intro bit_eqI) (auto simp add: bit_simps dest: bit_byte_less bit_imp_le_length)
  have "le_bytes (length (b # bs)) ?w = ucast ?w # le_bytes (length bs) (drop_bit 8 ?w)"
    by simp
  also have "\<dots> = b # le_bytes (length bs) (le_word bs :: 'a word)"
    using Cons.prems by (simp only: a c) (simp add: le_bytes_take_bit)
  also have "\<dots> = b # bs" using Cons by simp
  finally show ?case by simp
qed

lemma length_PutUint16 [simp]: "length (PutUint16 ord w) = 2"
  by (cases ord) (simp_all add: PutUint16_def)

lemma length_PutUint32 [simp]: "length (PutUint32 ord w) = 4"
  by (cases ord) (simp_all add: PutUint32_def)

lemma length_PutUint64 [simp]: "length (PutUint64 ord w) = 8"
  by (cases ord) (simp_all add: PutUint64_def)

lemma Uint16_PutUint16 [simp]: "Uint16 ord (PutUint16 ord w @ rest) = w"
  using le_word_le_bytes[of 2 w]
  by (cases ord) (simp_all add: Uint16_def PutUint16_def take_bit_word_eq_self del: le_bytes_numeral)

lemma Uint32_PutUint32 [simp]: "Uint32 ord (PutUint32 ord w @ rest) = w"
  using le_word_le_bytes[of 4 w]
  by (cases ord) (simp_all add: Uint32_def PutUint32_def take_bit_word_eq_self del: le_bytes_numeral)

lemma Uint64_PutUint64 [simp]: "Uint64 ord (PutUint64 ord w @ rest) = w"
  using le_word_le_bytes[of 8 w]
  by (cases ord) (simp_all add: Uint64_def PutUint64_def take_bit_word_eq_self del: le_bytes_numeral)

lemma PutUint32_Uint32: "length bs = 4 \<Longrightarrow> PutUint32 ord (Uint32 ord bs) = bs"
proof (cases ord)
  case LittleEndian
  assume l: "length bs = 4"
  have "le_bytes (length bs) (le_word bs :: 32 word) = bs"
    by (rule le_bytes_le_word) (simp add: l)
  then show ?thesis using l LittleEndian by (simp add: PutUint32_def Uint32_def del: le_bytes_numeral)
next
  case BigEndian
  assume l: "length bs = 4"
  have "le_bytes (length (rev bs)) (le_word (rev bs) :: 32 word) = rev bs"
    by (rule le_bytes_le_word) (simp add: l)
  then show ?thesis using l BigEndian by (simp add: PutUint32_def Uint32_def del: le_bytes_numeral)
qed

lemma Uint16_PutUint16' [simp]: "Uint16 ord (PutUint16 ord w) = w"
  using Uint16_PutUint16[of ord w "[]"] by simp

lemma Uint32_PutUint32' [simp]: "Uint32 ord (PutUint32 ord w) = w"
  using Uint32_PutUint32[of ord w "[]"] by simp

lemma Uint64_PutUint64' [simp]: "Uint64 ord (PutUint64 ord w) = w"
  using Uint64_PutUint64[of ord w "[]"] by simp

lemma readEach_chunks:
  assumes "\<And>pre x post. raw = pre @ enc x @ post \<Longrightarrow>
             el (length pre) = (Inr (fmt x), length pre + length (enc x))"
  shows "raw = pre @ concat (map enc xs) @ post \<Longrightarrow>
         readEach (length xs) (length pre) el = Inr (map fmt xs)"
proof (induction xs arbitrary: pre)
  case Nil
  then show ?case by simp
next
  case (Cons x xs)
  have r: "raw = pre @ enc x @ (concat (map enc xs) @ post)" using Cons.prems by simp
  have e: "el (length pre) = (Inr (fmt x), length (pre @ enc x))"
    using assms[OF r] by simp
  have "raw = (pre @ enc x) @ concat (map enc xs) @ post" using Cons.prems by simp
  from Cons.IH[OF this] show ?case by (simp add: e)
qed

lemma forEach_chunks:
  assumes "\<And>i pre x post. raw = pre @ enc x @ post \<Longrightarrow> length pre = w * i \<Longrightarrow> el i = Inr (fmt x)"
    and "\<And>x. length (enc x) = w"
  shows "raw = pre @ concat (map enc xs) @ post \<Longrightarrow> length pre = w * i \<Longrightarrow>
         forEach (length xs) i el = Inr (map fmt xs)"
proof (induction xs arbitrary: pre i)
  case Nil
  then show ?case by simp
next
  case (Cons x xs)
  have r: "raw = pre @ enc x @ (concat (map enc xs) @ post)" using Cons.prems by simp
  have e: "el i = Inr (fmt x)" using assms(1)[OF r Cons.prems(2)] .
  have r2: "raw = (pre @ enc x) @ concat (map enc xs) @ post" using Cons.prems by simp
  have l: "length (pre @ enc x) = w * Suc i" using Cons.prems(2) assms(2) by simp
  from Cons.IH[OF r2 l] show ?case by (simp add: e)
qed

lemma binaryRead_at:
  assumes "order t = Some ord" and "Raw t = pre @ b @ post" and "length b = w" and "0 < w"
  shows "binaryRead w dec t (length pre) = (Inr (dec ord b), length pre + w)"
  using assms by (simp add: binaryRead_def ReadFull_def)

lemma unat_of_nat32: "n < 2 ^ 32 \<Longrightarrow> unat (of_nat n :: 32 word) = n"
  by (rule of_nat_inverse[OF refl]) simp

lemma unat_of_nat16: "n < 2 ^ 16 \<Longrightarrow> unat (of_nat n :: 16 word) = n"
  by (rule of_nat_inverse[OF refl]) simp

lemma decodeShort_encoded:
  assumes "order t = Some ord" and "Raw t = concat (map (PutUint16 ord) ws) @ pad"
    and "unat (Count t) = length ws"
  shows "decodeShort t = Inr (map (\<lambda>w. FormatUint (unat w)) ws)"
proof -
  have "forEach (length ws) 0
          (\<lambda>i. case order t of
               None \<Rightarrow> Inl Panic
             | Some ord \<Rightarrow>
                 if length (Raw t) < i * 2 + 2 then Inl Panic
                 else Inr (FormatUint (unat (Uint16 ord (drop (i * 2) (Raw t))))))
        = Inr (map (\<lambda>w. FormatUint (unat w)) ws)"
  proof (rule forEach_chunks[where raw = "Raw t" and enc = "PutUint16 ord" and w = 2 and pre = "[]" and post = pad])
    fix i pre x post
    assume "Raw t = pre @ PutUint16 ord x @ post" and "length pre = 2 * i"
    then show "(case order t of
               None \<Rightarrow> Inl Panic
             | Some ord \<Rightarrow>
                 if length (Raw t) < i * 2 + 2 then Inl Panic
                 else Inr (FormatUint (unat (Uint16 ord (drop (i * 2) (Raw t)))))) = Inr (FormatUint (unat x))"
      using assms(1) by (simp add: mult.commute)
  qed (use assms in simp_all)
  then show ?thesis using assms(3) by (simp add: decodeShort_def)
qed

lemma decodeLong_encoded:
  assumes "order t = Some ord" and "Raw t = concat (map (PutUint32 ord) ws) @ pad"
    and "unat (Count t) = length ws"
  shows "decodeLong t = Inr (map (\<lambda>w. FormatUint (unat w)) ws)"
proof -
  have "forEach (length ws) 0
          (\<lambda>i. case order t of
               None \<Rightarrow> Inl Panic
             | Some ord \<Rightarrow>
                 if length (Raw t) < i * 4 + 4 then Inl Panic
                 else Inr (FormatUint (unat (Uint32 ord (drop (i * 4) (Raw t))))))
        = Inr (map (\<lambda>w. FormatUint (unat w)) ws)"
  proof (rule forEach_chunks[where raw = "Raw t" and enc = "PutUint32 ord" and w = 4 and pre = "[]" and post = pad])
    fix i pre x post
    assume "Raw t = pre @ PutUint32 ord x @ post" and "length pre = 4 * i"
    then show "(case order t of
               None \<Rightarrow> Inl Panic
             | Some ord \<Rightarrow>
                 if length (Raw t) < i * 4 + 4 then Inl Panic
                 else Inr (FormatUint (unat (Uint32 ord (drop (i * 4) (Raw t)))))) = Inr (FormatUint (unat x))"
      using assms(1) by (simp add: mult.commute)
  qed (use assms in simp_all)
  then show ?thesis using assms(3) by (simp add: decodeLong_def)
qed

lemma readEach_words:
  assumes "order t = Some ord" and "Raw t = concat (map enc ws) @ pad"
    and "\<And>x. length (enc x) = w" and "0 < w" and "\<And>x. dec ord (enc x) = x"
  shows "readEach (length ws) 0
           (\<lambda>p. case binaryRead w dec t p of
                   (Inl e, p') \<Rightarrow> (Inl e, p')
                 | (Inr s, p') \<Rightarrow> (Inr (fmt s), p'))
         = Inr (map fmt ws)"
proof -
  have "readEach (length ws) (length ([]::byte list))
           (\<lambda>p. case binaryRead w dec t p of
                   (Inl e, p') \<Rightarrow> (Inl e, p')
                 | (Inr s, p') \<Rightarrow> (Inr (fmt s), p'))
         = Inr (map fmt ws)"
  proof (rule readEach_chunks[where raw = "Raw t" and enc = enc and post = pad])
    fix pre x post
    assume r: "Raw t = pre @ enc x @ post"
    show "(case binaryRead w dec t (length pre) of
                   (Inl e, p') \<Rightarrow> (Inl e, p')
                 | (Inr s, p') \<Rightarrow> (Inr (fmt s), p')) = (Inr (fmt x), length pre + length (enc x))"
      using binaryRead_at[OF assms(1) r assms(3) assms(4), of dec] assms(3,5) by simp
  qed (use assms in simp_all)
  then show ?thesis by simp
qed

lemma readEach_pairs:
  assumes "order t = Some ord"
    and "Raw t = concat (map (\<lambda>(n, d). PutUint32 ord n @ PutUint32 ord d) ps) @ pad"
  shows "readEach (length ps) 0
       (\<lambda>p. case binaryRead 4 Uint32 t p of
               (Inl e, p1) \<Rightarrow> (Inl e, p1)
             | (Inr n, p1) \<Rightarrow>
                 (case binaryRead 4 Uint32 t p1 of
                    (Inl e, p2) \<Rightarrow> (Inl e, p2)
                  | (Inr d, p2) \<Rightarrow> (Inr (fmt n d), p2)))
         = Inr (map (\<lambda>(n, d). fmt n d) ps)"
proof -
  have "readEach (length ps) (length ([]::byte list))
       (\<lambda>p. case binaryRead 4 Uint32 t p of
               (Inl e, p1) \<Rightarrow> (Inl e, p1)
             | (Inr n, p1) \<Rightarrow>
                 (case binaryRead 4 Uint32 t p1 of
                    (Inl e, p2) \<Rightarrow> (Inl e, p2)
                  | (Inr d, p2) \<Rightarrow> (Inr (fmt n d), p2)))
         = Inr (map (\<lambda>(n, d). fmt n d) ps)"
  proof (rule readEach_chunks[where raw = "Raw t" and enc = "\<lambda>(n, d). PutUint32 ord n @ PutUint32 ord d"
        and post = pad])
    fix pre x post
    assume r: "Raw t = pre @ (case x of (n, d) \<Rightarrow> PutUint32 ord n @ PutUint32 ord d) @ post"
    obtain n d where x: "x = (n, d)" by (cases x)
    have r1: "Raw t = pre @ PutUint32 ord n @ (PutUint32 ord d @ post)" using r x by simp
    have r2: "Raw t = (pre @ PutUint32 ord n) @ PutUint32 ord d @ post" using r x by simp
    have b1: "binaryRead 4 Uint32 t (length pre) = (Inr n, length pre + 4)"
      using binaryRead_at[OF assms(1) r1, of 4 Uint32] by simp
    have b2: "binaryRead 4 Uint32 t (length pre + 4) = (Inr d, length pre + 4 + 4)"
      using binaryRead_at[OF assms(1) r2, of 4 Uint32] by simp
    show "(case binaryRead 4 Uint32 t (length pre) of
               (Inl e, p1) \<Rightarrow> (Inl e, p1)
             | (Inr n, p1) \<Rightarrow>
                 (case binaryRead 4 Uint32 t p1 of
                    (Inl e, p2) \<Rightarrow> (Inl e, p2)
                  | (Inr d, p2) \<Rightarrow> (Inr (fmt n d), p2))) =
          (Inr (case x of (n, d) \<Rightarrow> fmt n d),
           length pre + length (case x of (n, d) \<Rightarrow> PutUint32 ord n @ PutUint32 ord d))"
      by (simp add: b1 b2 x)
  qed (use assms in simp_all)
  then show ?thesis by simp
qed

lemma length_concat_const:
  "(\<And>x. length (f x) = w) \<Longrightarrow> length (concat (map f xs)) = w * length xs"
  by (induction xs) simp_all

lemma length_encodePayload:
  "wellTyped ct \<Longrightarrow>
   length (encodePayload ord (cdata ct)) = Format_Size (ctype ct) * elemCount (cdata ct)"
  by (cases "cdata ct")
     (auto simp add: wellTyped_def Format_Size_def length_concat_const[where w = 2]
        length_concat_const[where w = 4] length_concat_const[where w = 8] split: prod.splits)

lemma length_encodePayload_order:
  "length (encodePayload ord p) = length (encodePayload LittleEndian p)"
  by (cases p)
     (simp_all add: length_concat_const[where w = 2] length_concat_const[where w = 4]
        length_concat_const[where w = 8] split: prod.splits)

lemma length_external_order:
  "length (external ord ct) = length (external LittleEndian ct)"
  using length_encodePayload_order[of ord "cdata ct"] by (simp add: external_def)

lemma length_padded: "length b \<le> 4 \<Longrightarrow> length (padded b) = 4"
  by (simp add: padded_def)

lemma length_valueField [simp]: "length (valueField ord p off) = 4"
  by (simp add: valueField_def length_padded)

lemma length_encodeEntry [simp]: "length (encodeEntry ord ct off) = 12"
  by (simp add: encodeEntry_def)

lemma length_encodeEntries [simp]: "length (encodeEntries ord cs off) = 12 * length cs"
  by (induction cs arbitrary: off) simp_all

lemma length_externals_order:
  "length (concat (map (external ord) cs)) = length (concat (map (external LittleEndian) cs))"
  by (induction cs) (simp_all add: length_external_order[of ord])

lemma length_encodeFile:
  "length (encodeFile ord c) = 14 + 12 * length c + length (concat (map (external LittleEndian) c))"
  using length_externals_order[of ord c]
  by (cases ord) (simp_all add: encodeFile_def encodeHeader_def)

lemma encodeEntries_nth:
  "k < length cs \<Longrightarrow>
   take 12 (drop (12 * k) (encodeEntries ord cs off @ rest)) =
   encodeEntry ord (cs ! k) (off + length (concat (map (external ord) (take k cs))))"
proof (induction cs arbitrary: k off)
  case Nil
  then show ?case by simp
next
  case (Cons c cs)
  show ?case
  proof (cases k)
    case 0
    then show ?thesis by simp
  next
    case (Suc j)
    then have "j < length cs" using Cons.prems by simp
    from Cons.IH[OF this, of "off + length (external ord c)"]
    show ?thesis using Suc by (simp add: add.assoc)
  qed
qed

lemma concat_nth_window:
  "k < length xs \<Longrightarrow>
   take (length (xs ! k)) (drop (length (concat (take k xs))) (concat xs @ rest)) = xs ! k"
proof -
  assume k: "k < length xs"
  have "xs = take k xs @ xs ! k # drop (Suc k) xs" using k by (rule id_take_nth_drop)
  then have "concat xs = concat (take k xs) @ xs ! k @ concat (drop (Suc k) xs)"
    by (metis concat.simps(2) concat_append)
  then show ?thesis by simp
qed

lemma length_concat_take_le:
  "k < length xs \<Longrightarrow> length (concat (take k xs)) + length (xs ! k) \<le> length (concat xs)"
proof -
  assume k: "k < length xs"
  have "xs = take k xs @ xs ! k # drop (Suc k) xs" using k by (rule id_take_nth_drop)
  then have "concat xs = concat (take k xs) @ xs ! k @ concat (drop (Suc k) xs)"
    by (metis concat.simps(2) concat_append)
  then have "length (concat xs) = length (concat (take k xs)) + length (xs ! k)
       + length (concat (drop (Suc k) xs))"
    by (metis length_append add.assoc)
  then show ?thesis by simp
qed

lemma length_encodeHeader [simp]: "length (encodeHeader ord) = 4"
  by (cases ord) (simp_all add: encodeHeader_def)

lemma dirCount_encodeFile:
  "length c < 2 ^ 16 \<Longrightarrow> dirCount (encodeFile ord c) ord 8 = length c"
  by (simp add: dirCount_def encodeFile_def unat_of_nat16)

lemma entryBytes_encodeFile:
  assumes "k < length c"
  shows "entryBytes (encodeFile ord c) 8 k =
         encodeEntry ord (c ! k) (14 + 12 * length c + length (concat (map (external ord) (take k c))))"
proof -
  define X where "X = encodeEntries ord c (14 + 12 * length c) @
                      (PutUint32 ord 0 @ concat (map (external ord) c))"
  define H where "H = encodeHeader ord @ PutUint32 ord 8 @ PutUint16 ord (of_nat (length c))"
  have f: "encodeFile ord c = H @ X"
    by (simp add: encodeFile_def H_def X_def)
  have l: "length H = 10" by (simp add: H_def)
  have "entryBytes (encodeFile ord c) 8 k = take 12 (drop (12 * k) X)"
    by (simp add: entryBytes_def entryPos_def f l)
  also have "\<dots> = encodeEntry ord (c ! k)
       (14 + 12 * length c + length (concat (map (external ord) (take k c))))"
    unfolding X_def by (rule encodeEntries_nth[OF assms])
  finally show ?thesis .
qed

lemma entryId_encodeFile:
  "k < length c \<Longrightarrow> entryId (encodeFile ord c) ord 8 k = cid (c ! k)"
  by (simp add: entryId_def entryBytes_encodeFile encodeEntry_def)

lemma entryType_encodeFile:
  "k < length c \<Longrightarrow> entryType (encodeFile ord c) ord 8 k = ctype (c ! k)"
  by (simp add: entryType_def entryBytes_encodeFile encodeEntry_def)

lemma entryCount_encodeFile:
  "k < length c \<Longrightarrow> entryCount (encodeFile ord c) ord 8 k = of_nat (elemCount (cdata (c ! k)))"
  by (simp add: entryCount_def entryBytes_encodeFile encodeEntry_def)

lemma entryValueBytes_encodeFile:
  "k < length c \<Longrightarrow> drop 8 (entryBytes (encodeFile ord c) 8 k) =
     valueField ord (cdata (c ! k))
       (14 + 12 * length c + length (concat (map (external ord) (take k c))))"
  by (simp add: entryBytes_encodeFile encodeEntry_def)

lemma entrySize_encodeFile:
  assumes "k < length c" and "wellTyped (c ! k)" and "elemCount (cdata (c ! k)) < 2 ^ 32 - 1"
  shows "entrySize (encodeFile ord c) ord 8 k = length (encodePayload ord (cdata (c ! k)))"
proof -
  have "unat (of_nat (elemCount (cdata (c ! k))) :: 32 word) = elemCount (cdata (c ! k))"
    using assms(3) by (intro unat_of_nat32) simp
  then show ?thesis
    using assms(1,2)
    by (simp add: entrySize_def entryType_encodeFile entryCount_encodeFile length_encodePayload)
qed

lemma payload_window:
  assumes "k < length c"
  shows "take (length (external ord (c ! k)))
           (drop (14 + 12 * length c + length (concat (map (external ord) (take k c))))
              (encodeFile ord c)) = external ord (c ! k)"
proof -
  let ?H = "encodeHeader ord @ PutUint32 ord 8 @ PutUint16 ord (of_nat (length c)) @
            encodeEntries ord c (14 + 12 * length c) @ PutUint32 ord 0"
  have f: "encodeFile ord c = ?H @ concat (map (external ord) c)"
    by (simp add: encodeFile_def)
  have l: "length ?H = 14 + 12 * length c" by simp
  have "drop (14 + 12 * length c + length (concat (map (external ord) (take k c)))) (encodeFile ord c)
        = drop (length (concat (take k (map (external ord) c)))) (concat (map (external ord) c) @ [])"
    by (simp only: f drop_append l) (simp add: take_map)
  moreover have "take (length (map (external ord) c ! k))
      (drop (length (concat (take k (map (external ord) c)))) (concat (map (external ord) c) @ []))
      = map (external ord) c ! k"
    by (rule concat_nth_window) (simp add: assms)
  ultimately show ?thesis using assms by simp
qed

lemma payload_offset_bound:
  assumes "k < length c"
  shows "14 + 12 * length c + length (concat (map (external ord) (take k c)))
           + length (external ord (c ! k)) \<le> length (encodeFile ord c)"
proof -
  have "length (concat (take k (map (external ord) c))) + length (map (external ord) c ! k)
        \<le> length (concat (map (external ord) c))"
    by (rule length_concat_take_le) (simp add: assms)
  then have "length (concat (map (external ord) (take k c))) + length (external ord (c ! k))
        \<le> length (concat (map (external LittleEndian) c))"
    using assms length_externals_order[of ord c] by (simp add: take_map)
  then show ?thesis by (simp add: length_encodeFile)
qed

lemma validContent_nth:
  assumes "validContent c" and "k < length c"
  shows "wellTyped (c ! k)" and "elemCount (cdata (c ! k)) < 2 ^ 32 - 1"
  using assms by (simp_all add: validContent_def list_all_length)

lemma entryValue_external:
  assumes "validContent c" and "k < length c" and "4 < length (encodePayload ord (cdata (c ! k)))"
  shows "unat (entryValue (encodeFile ord c) ord 8 k) =
         14 + 12 * length c + length (concat (map (external ord) (take k c)))"
proof -
  let ?off = "14 + 12 * length c + length (concat (map (external ord) (take k c)))"
  have "?off \<le> length (encodeFile ord c)"
    using payload_offset_bound[OF assms(2), of ord] by simp
  also have "\<dots> < 2 ^ 32"
    using assms(1) by (simp add: validContent_def length_encodeFile)
  finally have b: "?off < 2 ^ 32" .
  have "entryValue (encodeFile ord c) ord 8 k = of_nat ?off"
    using assms(3)
    by (simp add: entryValue_def entryValueBytes_encodeFile[OF assms(2)] valueField_def)
  then show ?thesis using unat_of_nat32[OF b] by simp
qed

lemma entryValue_inline:
  assumes "k < length c" and "\<not> 4 < length (encodePayload ord (cdata (c ! k)))"
  shows "PutUint32 ord (entryValue (encodeFile ord c) ord 8 k) =
         padded (encodePayload ord (cdata (c ! k)))"
proof -
  have "entryValue (encodeFile ord c) ord 8 k = Uint32 ord (padded (encodePayload ord (cdata (c ! k))))"
    using assms(2)
    by (simp add: entryValue_def entryValueBytes_encodeFile[OF assms(1)] valueField_def)
  moreover have "length (padded (encodePayload ord (cdata (c ! k)))) = 4"
    using assms(2) by (intro length_padded) simp
  ultimately show ?thesis by (simp add: PutUint32_Uint32)
qed

lemma entryTag_encodeFile:
  assumes "validContent c" and "k < length c"
  shows "entryTag (encodeFile ord c) ord 8 0 fam k =
         contentTag ord fam (c ! k) (entryValue (encodeFile ord c) ord 8 k)"
proof -
  note wt = validContent_nth[OF assms]
  have sz: "entrySize (encodeFile ord c) ord 8 k = length (encodePayload ord (cdata (c ! k)))"
    by (rule entrySize_encodeFile[OF assms(2) wt])
  show ?thesis
  proof (cases "4 < length (encodePayload ord (cdata (c ! k)))")
    case True
    have ext: "external ord (c ! k) = encodePayload ord (cdata (c ! k))"
      using True by (simp add: external_def)
    have "take (length (encodePayload ord (cdata (c ! k))))
            (drop (unat (entryValue (encodeFile ord c) ord 8 k)) (encodeFile ord c))
          = encodePayload ord (cdata (c ! k))"
      using payload_window[OF assms(2), of ord] entryValue_external[OF assms True]
      by (simp add: ext)
    then show ?thesis
      using True assms(2)
      by (simp add: entryTag_def contentTag_def sz entryId_encodeFile entryType_encodeFile
            entryCount_encodeFile)
  next
    case False
    then show ?thesis
      using assms(2) entryValue_inline[OF assms(2) False]
      by (simp add: entryTag_def contentTag_def sz entryId_encodeFile entryType_encodeFile
            entryCount_encodeFile)
  qed
qed

lemma entries_encodeFile_good:
  assumes "validContent c" and "k < length c"
  shows "entryPresent (encodeFile ord c) 8 k \<and> \<not> entryBad (encodeFile ord c) ord 8 k \<and>
         payloadPresent (encodeFile ord c) ord 8 0 k"
proof -
  note wt = validContent_nth[OF assms]
  have sz: "entrySize (encodeFile ord c) ord 8 k = length (encodePayload ord (cdata (c ! k)))"
    by (rule entrySize_encodeFile[OF assms(2) wt])
  have p: "entryPresent (encodeFile ord c) 8 k"
    using assms(2) by (simp add: entryPresent_def entryPos_def length_encodeFile)
  have cnt: "entryCount (encodeFile ord c) ord 8 k \<noteq> 0xFFFFFFFF"
  proof
    assume "entryCount (encodeFile ord c) ord 8 k = 0xFFFFFFFF"
    then have "unat (of_nat (elemCount (cdata (c ! k))) :: 32 word) = unat (0xFFFFFFFF :: 32 word)"
      using assms(2) by (simp add: entryCount_encodeFile)
    moreover have "unat (of_nat (elemCount (cdata (c ! k))) :: 32 word) = elemCount (cdata (c ! k))"
      using wt(2) by (intro unat_of_nat32) simp
    ultimately show False using wt(2) by simp
  qed
  have ids: "0 < k \<Longrightarrow> entryId (encodeFile ord c) ord 8 (k - 1) < entryId (encodeFile ord c) ord 8 k"
  proof -
    assume k: "0 < k"
    have "sorted_wrt (<) (map cid c)" using assms(1) by (simp add: validContent_def)
    then have "map cid c ! (k - 1) < map cid c ! k"
      using k assms(2) by (simp add: sorted_wrt_iff_nth_less)
    then show ?thesis using k assms(2) by (simp add: entryId_encodeFile)
  qed
  have nb: "\<not> entryBad (encodeFile ord c) ord 8 k"
    using cnt ids by (auto simp add: entryBad_def not_le)
  have pp: "payloadPresent (encodeFile ord c) ord 8 0 k"
  proof (cases "4 < length (encodePayload ord (cdata (c ! k)))")
    case True
    have ext: "external ord (c ! k) = encodePayload ord (cdata (c ! k))"
      using True by (simp add: external_def)
    show ?thesis
      using payload_offset_bound[OF assms(2), of ord] entryValue_external[OF assms True]
      by (simp add: payloadPresent_def sz ext)
  next
    case False
    then show ?thesis by (simp add: payloadPresent_def sz)
  qed
  from p nb pp show ?thesis by simp
qed

lemma readTags_encodeFile:
  assumes "validContent c"
  shows "readTags (encodeFile ord c) ord 8 0 fam =
         Inr (map (\<lambda>k. contentTag ord fam (c ! k) (entryValue (encodeFile ord c) ord 8 k))
                [0..<length c], 10 + 12 * length c)"
proof -
  have n: "dirCount (encodeFile ord c) ord 8 = length c"
    using assms by (intro dirCount_encodeFile) (simp add: validContent_def)
  have h: "unat (8 :: 32 word) + 2 \<le> length (encodeFile ord c)"
    by (simp add: length_encodeFile)
  have g: "\<forall>k<dirCount (encodeFile ord c) ord 8.
            entryPresent (encodeFile ord c) 8 k \<and> \<not> entryBad (encodeFile ord c) ord 8 k \<and>
            payloadPresent (encodeFile ord c) ord 8 0 k"
    using entries_encodeFile_good[OF assms] n by simp
  have "map (entryTag (encodeFile ord c) ord 8 0 fam) [0..<length c] =
        map (\<lambda>k. contentTag ord fam (c ! k) (entryValue (encodeFile ord c) ord 8 k)) [0..<length c]"
    using entryTag_encodeFile[OF assms] by simp
  then show ?thesis
    using readTags_good[OF h g, of fam] n by (simp add: entryPos_def)
qed

lemma contentTag_Raw:
  "\<exists>pad. Raw (contentTag ord fam ct off) = encodePayload ord (cdata ct) @ pad"
  by (simp add: contentTag_def padded_def)

lemma Values_bytes_cong:
  assumes "Id t = Id t'" and "Type t = Type t'" and "Count t = Count t'" and "Raw t = Raw t'"
    and "Type t = Byte \<or> Type t = String \<or> Type t = SByte \<or> Type t = Undef"
  shows "Values E t = Values E t'"
proof -
  have "decodeByte t = decodeByte t'"
    by (simp only: decodeByte_def assms(3,4))
  then show ?thesis
    using assms(1,2,4,5) by (auto simp add: Values_def)
qed

lemma Values_contentTag:
  assumes "wellTyped ct" and "elemCount (cdata ct) < 2 ^ 32 - 1"
  shows "Values E (contentTag ord fam ct off) = Values E (contentTag LittleEndian fam' ct off')"
proof -
  have n: "\<And>ord fam off. unat (Count (contentTag ord fam ct off)) = elemCount (cdata ct)"
    using assms(2) by (simp add: contentTag_def unat_of_nat32)
  have o: "\<And>ord fam off. order (contentTag ord fam ct off) = Some ord"
    by (simp add: contentTag_def)
  show ?thesis
  proof (cases "cdata ct")
    case (Bytes8 bs)
    then have "ctype ct = Byte \<or> ctype ct = String \<or> ctype ct = SByte \<or> ctype ct = Undef"
      using assms(1) by (simp add: wellTyped_def)
    then show ?thesis
      using Bytes8 by (intro Values_bytes_cong) (simp_all add: contentTag_def)
  next
    case (Words16 ws)
    have r: "\<And>ord fam off. \<exists>pad. Raw (contentTag ord fam ct off) = concat (map (PutUint16 ord) ws) @ pad"
      using contentTag_Raw[of _ _ ct] Words16 by simp
    have a: "\<And>ord fam off. decodeShort (contentTag ord fam ct off) = Inr (map (\<lambda>w. FormatUint (unat w)) ws)"
    proof -
      fix ord fam off
      obtain pad where "Raw (contentTag ord fam ct off) = concat (map (PutUint16 ord) ws) @ pad"
        using r by blast
      then show "decodeShort (contentTag ord fam ct off) = Inr (map (\<lambda>w. FormatUint (unat w)) ws)"
        using n[of ord fam off] Words16 by (intro decodeShort_encoded[OF o]) simp_all
    qed
    have b: "\<And>ord fam off. decodeSignedShort (contentTag ord fam ct off) = Inr (map (\<lambda>w. FormatInt (sint w)) ws)"
    proof -
      fix ord fam off
      obtain pad where p: "Raw (contentTag ord fam ct off) = concat (map (PutUint16 ord) ws) @ pad"
        using r by blast
      show "decodeSignedShort (contentTag ord fam ct off) = Inr (map (\<lambda>w. FormatInt (sint w)) ws)"
        using readEach_words[OF o p, of 2 Uint16 "\<lambda>s. FormatInt (sint s)"] n[of ord fam off] Words16
        by (simp add: decodeSignedShort_def)
    qed
    have ty: "ctype ct = Short \<or> ctype ct = SShort" and i: "cid ct \<noteq> Xmp" "cid ct \<noteq> Comment"
      using assms(1) Words16 by (simp_all add: wellTyped_def)
    have v: "\<And>ord fam off. Values E (contentTag ord fam ct off) =
               (if ctype ct = Short then decodeShort (contentTag ord fam ct off)
                else decodeSignedShort (contentTag ord fam ct off))"
      using ty i by (auto simp add: Values_def contentTag_def)
    show ?thesis by (simp only: v a b)
  next
    case (Words32 ws)
    have r: "\<And>ord fam off. \<exists>pad. Raw (contentTag ord fam ct off) = concat (map (PutUint32 ord) ws) @ pad"
      using contentTag_Raw[of _ _ ct] Words32 by simp
    have a: "\<And>ord fam off. decodeLong (contentTag ord fam ct off) = Inr (map (\<lambda>w. FormatUint (unat w)) ws)"
    proof -
      fix ord fam off
      obtain pad where "Raw (contentTag ord fam ct off) = concat (map (PutUint32 ord) ws) @ pad"
        using r by blast
      then show "decodeLong (contentTag ord fam ct off) = Inr (map (\<lambda>w. FormatUint (unat w)) ws)"
        using n[of ord fam off] Words32 by (intro decodeLong_encoded[OF o]) simp_all
    qed
    have b: "\<And>ord fam off. decodeSignedLong (contentTag ord fam ct off) = Inr (map (\<lambda>w. FormatInt (sint w)) ws)"
    proof -
      fix ord fam off
      obtain pad where p: "Raw (contentTag ord fam ct off) = concat (map (PutUint32 ord) ws) @ pad"
        using r by blast
      show "decodeSignedLong (contentTag ord fam ct off) = Inr (map (\<lambda>w. FormatInt (sint w)) ws)"
        using readEach_words[OF o p, of 4 Uint32 "\<lambda>s. FormatInt (sint s)"] n[of ord fam off] Words32
        by (simp add: decodeSignedLong_def)
    qed
    have d: "\<And>ord fam off. decodeFloat E (contentTag ord fam ct off) = Inr (map (FormatFloat32 E) ws)"
    proof -
      fix ord fam off
      obtain pad where p: "Raw (contentTag ord fam ct off) = concat (map (PutUint32 ord) ws) @ pad"
        using r by blast
      show "decodeFloat E (contentTag ord fam ct off) = Inr (map (FormatFloat32 E) ws)"
        using readEach_words[OF o p, of 4 Uint32 "FormatFloat32 E"] n[of ord fam off] Words32
        by (simp add: decodeFloat_def)
    qed
    have ty: "ctype ct = Long \<or> ctype ct = SLong \<or> ctype ct = Float"
      and i: "cid ct \<noteq> Xmp" "cid ct \<noteq> Comment"
      using assms(1) Words32 by (simp_all add: wellTyped_def)
    have v: "\<And>ord fam off. Values E (contentTag ord fam ct off) =
               (if ctype ct = Long then decodeLong (contentTag ord fam ct off)
                else if ctype ct = SLong then decodeSignedLong (contentTag ord fam ct off)
                else decodeFloat E (contentTag ord fam ct off))"
      using ty i by (auto simp add: Values_def contentTag_def)
    show ?thesis by (simp only: v a b d)
  next
    case (Pairs32 ps)
    have r: "\<And>ord fam off. \<exists>pad. Raw (contentTag ord fam ct off) =
               concat (map (\<lambda>(n, d). PutUint32 ord n @ PutUint32 ord d) ps) @ pad"
      using contentTag_Raw[of _ _ ct] Pairs32 by simp
    have a: "\<And>ord fam off. decodeRational (contentTag ord fam ct off) =
               Inr (map (\<lambda>(n, d). FormatUint (unat n) @ ''/'' @ FormatUint (unat d)) ps)"
    proof -
      fix ord fam off
      obtain pad where p: "Raw (contentTag ord fam ct off) =
               concat (map (\<lambda>(n, d). PutUint32 ord n @ PutUint32 ord d) ps) @ pad"
        using r by blast
      show "decodeRational (contentTag ord fam ct off) =
               Inr (map (\<lambda>(n, d). FormatUint (unat n) @ ''/'' @ FormatUint (unat d)) ps)"
        using readEach_pairs[OF o p, of "\<lambda>n d. FormatUint (unat n) @ ''/'' @ FormatUint (unat d)"]
          n[of ord fam off] Pairs32
        by (simp add: decodeRational_def)
    qed
    have b: "\<And>ord fam off. decodeSignedRational (contentTag ord fam ct off) =
               Inr (map (\<lambda>(n, d). FormatInt (sint n) @ ''/'' @ FormatInt (sint d)) ps)"
    proof -
      fix ord fam off
      obtain pad where p: "Raw (contentTag ord fam ct off) =
               concat (map (\<lambda>(n, d). PutUint32 ord n @ PutUint32 ord d) ps) @ pad"
        using r by blast
      show "decodeSignedRational (contentTag ord fam ct off) =
               Inr (map (\<lambda>(n, d). FormatInt (sint n) @ ''/'' @ FormatInt (sint d)) ps)"
        using readEach_pairs[OF o p, of "\<lambda>n d. FormatInt (sint n) @ ''/'' @ FormatInt (sint d)"]
          n[of ord fam off] Pairs32
        by (simp add: decodeSignedRational_def)
    qed
    have ty: "ctype ct = Rational \<or> ctype ct = SRational"
      and i: "cid ct \<noteq> Xmp" "cid ct \<noteq> Comment"
      using assms(1) Pairs32 by (simp_all add: wellTyped_def)
    have v: "\<And>ord fam off. Values E (contentTag ord fam ct off) =
               (if ctype ct = Rational then decodeRational (contentTag ord fam ct off)
                else decodeSignedRational (contentTag ord fam ct off))"
      using ty i by (auto simp add: Values_def contentTag_def)
    show ?thesis by (simp only: v a b)
  next
    case (Words64 ws)
    have r: "\<And>ord fam off. \<exists>pad. Raw (contentTag ord fam ct off) = concat (map (PutUint64 ord) ws) @ pad"
      using contentTag_Raw[of _ _ ct] Words64 by simp
    have d: "\<And>ord fam off. decodeDouble E (contentTag ord fam ct off) = Inr (map (FormatFloat64 E) ws)"
    proof -
      fix ord fam off
      obtain pad where p: "Raw (contentTag ord fam ct off) = concat (map (PutUint64 ord) ws) @ pad"
        using r by blast
      show "decodeDouble E (contentTag ord fam ct off) = Inr (map (FormatFloat64 E) ws)"
        using readEach_words[OF o p, of 8 Uint64 "FormatFloat64 E"] n[of ord fam off] Words64
        by (simp add: decodeDouble_def)
    qed
    have ty: "ctype ct = Double" and i: "cid ct \<noteq> Xmp" "cid ct \<noteq> Comment"
      using assms(1) Words64 by (simp_all add: wellTyped_def)
    have v: "\<And>ord fam off. Values E (contentTag ord fam ct off) =
               decodeDouble E (contentTag ord fam ct off)"
      using ty i by (simp add: Values_def contentTag_def)
    show ?thesis by (simp only: v d)
  qed
qed

lemma logical_contentTag:
  assumes "wellTyped ct" and "elemCount (cdata ct) < 2 ^ 32 - 1"
  shows "logical E (contentTag ord fam ct off) = logical E (contentTag LittleEndian fam' ct off')"
  using Values_contentTag[OF assms, of E ord fam off fam' off']
  by (simp add: logical_def contentTag_def)

lemma readOrder_encodeFile:
  "readOrder (encodeFile ord c) 0 = Inr (ord, 4)"
  by (cases ord) (simp_all add: readOrder_def encodeFile_def encodeHeader_def ReadFull_def)

lemma decoded_encodeFile:
  assumes "validContent c"
  shows "decoded E ord c =
         Inr (map (\<lambda>k. logical E (contentTag ord Tiff (c ! k) (entryValue (encodeFile ord c) ord 8 k)))
                [0..<length c])"
proof -
  have rf: "ReadFull (encodeFile ord c) 4 4 = (Inr (PutUint32 ord 8), 8)"
    by (simp add: ReadFull_def encodeFile_def)
  show ?thesis
    by (simp add: decoded_def readOrder_encodeFile rf readTags_encodeFile[OF assms] comp_def)
qed

text \<open>
  C6 as the specification states it: the same content, written little-endian and
  big-endian, decodes to the same values. Not for every content: the tags \<open>Xmp\<close> and
  \<open>Comment\<close> are printed from their raw bytes whatever their format, and the raw bytes of
  16-bit elements differ with the byte order. A \<open>Comment\<close> tag of the two Short elements
  \<open>0x4142\<close>, \<open>0x4344\<close> prints as \<open>BADC\<close> from the little-endian file and as \<open>ABCD\<close>
  from the big-endian one (the four bytes hold no white space: \<open>TrimSpace\<close> leaves them
  as they are).
\<close>

theorem byte_order_counterexample:
  "decoded extern_stub LittleEndian comment_shorts = Inr [(0x9286, Short, 2, Inr [''BADC''])] \<and>
   decoded extern_stub BigEndian comment_shorts = Inr [(0x9286, Short, 2, Inr [''ABCD''])] \<and>
   decoded extern_stub BigEndian comment_shorts \<noteq> decoded extern_stub LittleEndian comment_shorts"
proof -
  have a: "decoded extern_stub LittleEndian comment_shorts = Inr [(0x9286, Short, 2, Inr [''BADC''])]"
    and b: "decoded extern_stub BigEndian comment_shorts = Inr [(0x9286, Short, 2, Inr [''ABCD''])]"
    by code_simp+
  show ?thesis by (simp add: a b)
qed

text \<open>
  C6, amended. For every valid content, in which the tags \<open>Xmp\<close> and \<open>Comment\<close> have
  one-byte elements, the first directory of the little-endian file and of the big-endian
  file that encode it decode, with rebase 0, to the same logical values: the ids, formats
  and counts of the content, and the same printed values.
\<close>

theorem byte_order_independent:
  assumes "validContent c"
  shows "decoded E BigEndian c = decoded E LittleEndian c \<and>
         (\<exists>vs. decoded E LittleEndian c = Inr vs \<and>
               map fst vs = map cid c \<and>
               map (\<lambda>v. fst (snd v)) vs = map ctype c \<and>
               map (\<lambda>v. fst (snd (snd v))) vs = map (\<lambda>ct. of_nat (elemCount (cdata ct))) c)"
proof -
  let ?vl = "map (\<lambda>k. logical E (contentTag LittleEndian Tiff (c ! k)
                        (entryValue (encodeFile LittleEndian c) LittleEndian 8 k))) [0..<length c]"
  let ?vb = "map (\<lambda>k. logical E (contentTag BigEndian Tiff (c ! k)
                        (entryValue (encodeFile BigEndian c) BigEndian 8 k))) [0..<length c]"
  have eq: "?vb = ?vl"
  proof (rule nth_equalityI)
    show "length ?vb = length ?vl" by simp
  next
    fix k assume "k < length ?vb"
    then have k: "k < length c" by simp
    note wt = validContent_nth[OF assms k]
    show "?vb ! k = ?vl ! k"
      using k logical_contentTag[OF wt, of E BigEndian Tiff
          "entryValue (encodeFile BigEndian c) BigEndian 8 k" Tiff
          "entryValue (encodeFile LittleEndian c) LittleEndian 8 k"]
      by simp
  qed
  have f: "map fst ?vl = map cid c" "map (\<lambda>v. fst (snd v)) ?vl = map ctype c"
    "map (\<lambda>v. fst (snd (snd v))) ?vl = map (\<lambda>ct. of_nat (elemCount (cdata ct))) c"
    by (rule nth_equalityI; simp add: logical_def contentTag_def)+
  show ?thesis
    using decoded_encodeFile[OF assms, of E LittleEndian] decoded_encodeFile[OF assms, of E BigEndian]
      eq f
    by simp
qed

theorem byte_order_independent_witness:
  "validContent sample_content \<and>
   encodeFile LittleEndian sample_content \<noteq> encodeFile BigEndian sample_content \<and>
   decoded extern_stub LittleEndian sample_content =
     Inr [(0x100, Short, 1, Inr [''640'']),
          (0x10f, String, 6, Inr [''NIKON'']),
          (0x11a, Rational, 1, Inr [''300/1'']),
          (0x8827, Short, 2, Inr [''100'', ''200'']),
          (0x9204, SRational, 1, Inr [''-2/3'']),
          (0x9286, Undef, 7, Inr [''ASCIIHi'']),
          (0xa20e, SLong, 2, Inr [''-5'', ''7''])] \<and>
   decoded extern_stub BigEndian sample_content = decoded extern_stub LittleEndian sample_content"
proof -
  have a: "list_all wellTyped sample_content" "sorted_wrt (<) (map cid sample_content)"
    "length (encodeFile LittleEndian sample_content) = 135"
    by code_simp+
  have b: "length sample_content < 2 ^ 16"
    "list_all (\<lambda>ct. elemCount (cdata ct) < 2 ^ 32 - 1) sample_content"
    by (simp_all add: sample_content_def)
  have v: "validContent sample_content" using a b by (simp add: validContent_def)
  have d: "encodeFile LittleEndian sample_content \<noteq> encodeFile BigEndian sample_content"
    by code_simp
  have l: "decoded extern_stub LittleEndian sample_content =
     Inr [(0x100, Short, 1, Inr [''640'']),
          (0x10f, String, 6, Inr [''NIKON'']),
          (0x11a, Rational, 1, Inr [''300/1'']),
          (0x8827, Short, 2, Inr [''100'', ''200'']),
          (0x9204, SRational, 1, Inr [''-2/3'']),
          (0x9286, Undef, 7, Inr [''ASCIIHi'']),
          (0xa20e, SLong, 2, Inr [''-5'', ''7''])]"
    by code_simp
  from byte_order_independent[OF v, of extern_stub] v d l show ?thesis by simp
qed

end
